theory Spec2Isabelle
  imports Complex_Main "HOL-Library.Word"
begin

unbundle bit_operations_syntax

section \<open>JavaScript values used by the library\<close>

text \<open>
  A Node.js \<open>Buffer\<close> is a sequence of bytes.  A JavaScript number that holds an integer
  is an \<open>int\<close>; the 32-bit conversions that the bitwise operators apply to their
  operands are written out.  Thrown exceptions are values of \<open>error\<close>.
\<close>

type_synonym byte = "8 word"
type_synonym Buffer = "byte list"

datatype error = TypeError | RangeError

text \<open>The argument type \<open>string|Buffer\<close> of the JSDoc comments.\<close>

datatype data = Str string | Buf Buffer

text \<open>
  \<open>Buffer.from(string)\<close> with the default encoding \<open>utf8\<close>: a code unit below 128 is one
  byte, a code unit from 128 to 255 is two bytes.  (\<open>char\<close> has no code units above 255.)
\<close>

definition utf8_char :: "char \<Rightarrow> Buffer" where
  "utf8_char c =
     (let n = of_char c :: nat
      in if n < 128 then [of_nat n]
         else [of_nat (192 + n div 64), of_nat (128 + n mod 64)])"

definition utf8 :: "string \<Rightarrow> Buffer" where
  "utf8 s = concat (map utf8_char s)"

fun bytes_of :: "data \<Rightarrow> Buffer" where
  "bytes_of (Str s) = utf8 s"
| "bytes_of (Buf b) = b"

text \<open>\<open>ToInt32\<close> and \<open>ToUint32\<close> of ECMAScript, on integers.\<close>

definition ToInt32 :: "int \<Rightarrow> int" where
  "ToInt32 x = signed_take_bit 31 x"

definition ToUint32 :: "int \<Rightarrow> int" where
  "ToUint32 x = take_bit 32 x"

text \<open>The operators \<open>^\<close>, \<open>&\<close>, \<open>|\<close>, \<open>~\<close>, \<open><<\<close> and \<open>>>>\<close>.\<close>

definition js_xor :: "int \<Rightarrow> int \<Rightarrow> int" where
  "js_xor a b = ToInt32 (ToInt32 a XOR ToInt32 b)"

definition js_and :: "int \<Rightarrow> int \<Rightarrow> int" where
  "js_and a b = ToInt32 (ToInt32 a AND ToInt32 b)"

definition js_or :: "int \<Rightarrow> int \<Rightarrow> int" where
  "js_or a b = ToInt32 (ToInt32 a OR ToInt32 b)"

definition js_not :: "int \<Rightarrow> int" where
  "js_not a = ToInt32 (NOT (ToInt32 a))"

definition js_shl :: "int \<Rightarrow> int \<Rightarrow> int" where
  "js_shl a n = ToInt32 (push_bit (nat (ToUint32 n mod 32)) (ToInt32 a))"

definition js_ushr :: "int \<Rightarrow> int \<Rightarrow> int" where
  "js_ushr a n = drop_bit (nat (ToUint32 n mod 32)) (ToUint32 a)"

section \<open>lib/fnv.js\<close>

record FNV =
  hash :: int

definition FNV_new :: FNV where
  "FNV_new = \<lparr>hash = 0x811c9dc5\<rparr>"

text \<open>
  One round of the loop in \<open>update\<close>.  The sum is an ordinary number addition: its six
  terms are 32-bit, so it is exact, and it is reduced to 32 bits only by the next bitwise
  operator.
\<close>

definition update_byte :: "int \<Rightarrow> byte \<Rightarrow> int" where
  "update_byte h b =
     (let h1 = js_xor h (uint b)
      in h1 + (js_shl h1 24 + js_shl h1 8 + js_shl h1 7 + js_shl h1 4 + js_shl h1 1))"

definition update :: "data \<Rightarrow> FNV \<Rightarrow> FNV" where
  "update d f = f\<lparr>hash := foldl update_byte (hash f) (bytes_of d)\<rparr>"

definition value' :: "FNV \<Rightarrow> int" where
  "value' f = js_and (hash f) 0xffffffff"

text \<open>\<open>buf.writeInt32BE(v, 0)\<close> on a 4-byte buffer, for a 32-bit \<open>v\<close>.\<close>

definition writeInt32BE :: "int \<Rightarrow> Buffer" where
  "writeInt32BE v =
     [word_of_int (drop_bit 24 v), word_of_int (drop_bit 16 v),
      word_of_int (drop_bit 8 v), word_of_int v]"

definition digest :: "FNV \<Rightarrow> Buffer" where
  "digest f = writeInt32BE (js_and (hash f) 0xffffffff)"

text \<open>\<open>buf.toString('hex')\<close>.\<close>

definition hex_digit :: "nat \<Rightarrow> char" where
  "hex_digit n = ''0123456789abcdef'' ! n"

definition hex_byte :: "byte \<Rightarrow> string" where
  "hex_byte b = [hex_digit (unat b div 16), hex_digit (unat b mod 16)]"

definition toString_hex :: "Buffer \<Rightarrow> string" where
  "toString_hex b = concat (map hex_byte b)"

definition digest_hex :: "FNV \<Rightarrow> string" where
  "digest_hex f = toString_hex (digest f)"

text \<open>\<open>Buffer.from(s, 'hex')\<close>: pairs of hex digits, up to the first pair that is not one.\<close>

definition hex_val :: "char \<Rightarrow> nat option" where
  "hex_val c =
     (let n = of_char c :: nat
      in if 48 \<le> n \<and> n \<le> 57 then Some (n - 48)
         else if 97 \<le> n \<and> n \<le> 102 then Some (n - 87)
         else if 65 \<le> n \<and> n \<le> 70 then Some (n - 55)
         else None)"

fun from_hex :: "string \<Rightarrow> Buffer" where
  "from_hex (a # b # rest) =
     (case hex_val a of
        None \<Rightarrow> []
      | Some x \<Rightarrow> (case hex_val b of
                    None \<Rightarrow> []
                  | Some y \<Rightarrow> of_nat (16 * x + y) # from_hex rest))"
| "from_hex _ = []"

section \<open>Number arithmetic\<close>

text \<open>
  A JavaScript number is an IEEE 754 double.  An integer of magnitude below \<open>2 ^ 53\<close>
  is a double; the sum or product of two integer-valued doubles is the exact result
  rounded to 53 significant bits, ties to even (\<open>round53\<close>; \<open>exponent53 a\<close> is the
  number of low bits that \<open>a\<close> has beyond 53).  The remainder operator
  \<open>%\<close> is exact, takes the sign of the dividend, and gives \<open>NaN\<close> for a zero divisor.
\<close>

function exponent53 :: "int \<Rightarrow> nat" where
  "exponent53 a = (if a < 2 ^ 53 then 0 else Suc (exponent53 (a div 2)))"
  by pat_completeness auto
termination
  by (relation "measure nat") auto

declare exponent53.simps [simp del]

definition round53 :: "int \<Rightarrow> int" where
  "round53 x =
     (let a = \<bar>x\<bar>;
          e = exponent53 a;
          q = a div 2 ^ e;
          r = a mod 2 ^ e
      in sgn x * (if 2 ^ e < 2 * r \<or> (2 * r = 2 ^ e \<and> odd q)
                  then (q + 1) * 2 ^ e else q * 2 ^ e))"

definition js_add :: "int \<Rightarrow> int \<Rightarrow> int" where
  "js_add a b = round53 (a + b)"

definition js_mul :: "int \<Rightarrow> int \<Rightarrow> int" where
  "js_mul a b = round53 (a * b)"

datatype number = NaN | Num int

fun js_rem :: "number \<Rightarrow> int \<Rightarrow> number" where
  "js_rem NaN b = NaN"
| "js_rem (Num a) b = (if b = 0 then NaN else Num (sgn a * (\<bar>a\<bar> mod \<bar>b\<bar>)))"

text \<open>The integer conversions of the bitwise operators map \<open>NaN\<close> to 0.\<close>

fun int_of :: "number \<Rightarrow> int" where
  "int_of NaN = 0"
| "int_of (Num n) = n"

text \<open>
  A number that is not an integer is the real number that the double is.  The result
  of an arithmetic operation on doubles is the exact result rounded to the nearest
  double, ties to even (\<open>rnd\<close>).  The doubles around \<open>x\<close> are the multiples of
  \<open>ulp x\<close>, which is \<open>2 ^ (e - 52)\<close> for \<open>2 ^ e \<le> \<bar>x\<bar> < 2 ^ (e + 1)\<close> and
  \<open>2 ^ - 1074\<close> below \<open>2 ^ - 1022\<close>, where the doubles are subnormal.  A result that
  rounds to a magnitude of \<open>2 ^ 1024\<close> or more is an infinity: \<open>double\<close> is the result
  of an operation whose exact result is \<open>x\<close>, or \<open>None\<close> for an infinity.
\<close>

definition ulp :: "real \<Rightarrow> real" where
  "ulp x = 2 powr real_of_int (max \<lfloor>log 2 \<bar>x\<bar>\<rfloor> (- 1022) - 52)"

definition round_even :: "real \<Rightarrow> int" where
  "round_even m =
     (let f = \<lfloor>m\<rfloor>
      in if m - real_of_int f < 1 / 2 then f
         else if 1 / 2 < m - real_of_int f then f + 1
         else if even f then f else f + 1)"

definition rnd :: "real \<Rightarrow> real" where
  "rnd x = (if x = 0 then 0 else real_of_int (round_even (x / ulp x)) * ulp x)"

definition double :: "real \<Rightarrow> real option" where
  "double x = (let r = rnd x in if \<bar>r\<bar> < 2 ^ 1024 then Some r else None)"

text \<open>
  \<open>Math.log\<close> is implementation-approximated: ECMAScript does not fix its values.  An
  implementation is any function that is, on the positive numbers, within a relative
  error of \<open>2 ^ - 51\<close> of the natural logarithm.  A logarithm whose error is below one
  unit in the last place, as that of fdlibm which the engines use, is such a function.
  The functions of \<open>lib/bloom.js\<close> that call \<open>Math.log\<close> take the implementation
  as their first argument.
\<close>

typedef Math = "{f :: real \<Rightarrow> real. \<forall>x. 0 < x \<longrightarrow> \<bar>f x - ln x\<bar> \<le> \<bar>ln x\<bar> / 2 ^ 51}"
  morphisms Math_log Abs_Math
  by (rule exI [of _ ln]) simp

section \<open>lib/bitfield.js\<close>

record Bitfield =
  buffer :: Buffer

text \<open>
  \<open>Buffer.alloc(size, 0)\<close> throws a \<open>RangeError\<close> for a negative size.  (It also
  throws above the platform's maximal buffer length, which is not modelled.)
\<close>

definition Buffer_alloc :: "int \<Rightarrow> error + Buffer" where
  "Buffer_alloc n = (if n < 0 then Inl RangeError else Inr (replicate (nat n) 0))"

definition Bitfield_new :: "int \<Rightarrow> Buffer option \<Rightarrow> error + Bitfield" where
  "Bitfield_new number buf =
     (let size' = - ((- number) div 8)
      in case buf of
           Some b \<Rightarrow>
             if int (length b) = size' then Inr \<lparr>buffer = b\<rparr>
             else map_sum id (\<lambda>b. \<lparr>buffer = b\<rparr>) (Buffer_alloc size')
         | None \<Rightarrow> map_sum id (\<lambda>b. \<lparr>buffer = b\<rparr>) (Buffer_alloc size'))"

text \<open>
  Reading a buffer out of range gives \<open>undefined\<close>, which the bitwise operators take
  as 0; writing out of range is ignored; a stored value is reduced modulo 256.
\<close>

definition Buffer_read :: "Buffer \<Rightarrow> nat \<Rightarrow> int" where
  "Buffer_read b pos = (if pos < length b then uint (b ! pos) else 0)"

definition Buffer_write :: "Buffer \<Rightarrow> nat \<Rightarrow> int \<Rightarrow> Buffer" where
  "Buffer_write b pos v = (if pos < length b then b[pos := word_of_int v] else b)"

definition Bitfield_set :: "number \<Rightarrow> bool \<Rightarrow> Bitfield \<Rightarrow> Bitfield" where
  "Bitfield_set index bool bf =
     (let pos = nat (js_ushr (int_of index) 3)
      in if bool
         then bf\<lparr>buffer := Buffer_write (buffer bf) pos
                   (js_or (Buffer_read (buffer bf) pos) (js_shl 1 (int_of (js_rem index 8))))\<rparr>
         else bf\<lparr>buffer := Buffer_write (buffer bf) pos
                   (js_and (Buffer_read (buffer bf) pos)
                      (js_not (js_shl 1 (int_of (js_rem index 8)))))\<rparr>)"

definition Bitfield_get :: "number \<Rightarrow> Bitfield \<Rightarrow> bool" where
  "Bitfield_get index bf =
     (js_and (Buffer_read (buffer bf) (nat (js_ushr (int_of index) 3)))
        (js_shl 1 (int_of (js_rem index 8))) \<noteq> 0)"

definition toBuffer :: "Bitfield \<Rightarrow> Buffer" where
  "toBuffer bf = buffer bf"

section \<open>lib/bloom.js: sizing and index derivation\<close>

text \<open>
  \<open>calculateSize\<close> multiplies, divides and takes the ceiling, each on doubles; the
  constant \<open>log2sq\<close> is the double nearest to 0.480453.  On 0 \<open>Math.log\<close> is
  \<open>-Infinity\<close> and on a negative number \<open>NaN\<close>; then, and when the product or the
  quotient is an infinity, \<open>calculateSize\<close> is not a finite number: \<open>None\<close>.  The
  ceiling of a double is a double.
\<close>

definition calculateSize :: "Math \<Rightarrow> real \<Rightarrow> real \<Rightarrow> int option" where
  "calculateSize Math capacity errorRate =
     (let log2sq = rnd 0.480453
      in if errorRate \<le> 0 then None
         else case double (capacity * Math_log Math errorRate) of
                None \<Rightarrow> None
              | Some p \<Rightarrow>
                  (case double (p / - log2sq) of
                     None \<Rightarrow> None
                   | Some q \<Rightarrow> Some \<lceil>q\<rceil>))"

text \<open>
  \<open>calculateSlices\<close> divides and multiplies on doubles.  Where the source's result is
  not a finite number, the value here is one that no double has: for \<open>capacity = 0\<close>
  the source computes \<open>NaN\<close> (from size 0) and HOL's division gives 0, and both derive
  no index; a quotient that overflows is an infinity in the source, with which
  \<open>calulateHashes\<close> does not return.
\<close>

definition calculateSlices :: "Math \<Rightarrow> int \<Rightarrow> real \<Rightarrow> real" where
  "calculateSlices Math size' capacity =
     rnd (rnd (real_of_int size' / capacity) * Math_log Math 2)"

definition fnv :: "data \<Rightarrow> data \<Rightarrow> int" where
  "fnv seed d = js_ushr (value' (update d (update seed FNV_new))) 0"

text \<open>The \<open>for\<close> loop of \<open>calulateHashes\<close>, from counter \<open>i\<close> with the array \<open>hashes\<close>.\<close>

function calulateHashes_loop ::
  "int \<Rightarrow> int \<Rightarrow> int \<Rightarrow> real \<Rightarrow> nat \<Rightarrow> number list \<Rightarrow> number list" where
  "calulateHashes_loop h1 h2 size' slices i hashes =
     (if real i < slices
      then calulateHashes_loop h1 h2 size' slices (i + 1)
             (hashes @ [js_rem (Num (js_add h1 (js_mul (int i) h2))) size'])
      else hashes)"
  by pat_completeness auto
termination
proof (relation "measure (\<lambda>(h1, h2, sz, slices, i, hashes). nat \<lceil>slices\<rceil> - i)")
  show "wf (measure (\<lambda>(h1, h2, sz, slices, i, hashes). nat \<lceil>slices :: real\<rceil> - i))"
    by simp
next
  fix h1 h2 sz :: int and slices :: real and i :: nat and hashes :: "number list"
  assume "real i < slices"
  then have "int i < \<lceil>slices\<rceil>"
    by (simp add: less_ceiling_iff)
  then show "((h1, h2, sz, slices, i + 1,
               hashes @ [js_rem (Num (js_add h1 (js_mul (int i) h2))) sz]),
              (h1, h2, sz, slices, i, hashes))
             \<in> measure (\<lambda>(h1, h2, sz, slices, i, hashes). nat \<lceil>slices\<rceil> - i)"
    by simp
qed

declare calulateHashes_loop.simps [simp del]

definition calulateHashes :: "data \<Rightarrow> int \<Rightarrow> real \<Rightarrow> number list" where
  "calulateHashes key size' slices =
     (let h1 = fnv (Buf (utf8 ''S'')) key;
          h2 = fnv (Buf (utf8 ''W'')) key
      in calulateHashes_loop h1 h2 size' slices 0 [])"

section \<open>lib/bloom.js: BloomFilter\<close>

text \<open>The size is a whole number of bits; the slice count is any number.\<close>

record BloomFilter =
  size' :: int
  slices :: real
  bitfield :: Bitfield

text \<open>The constructor; an omitted argument is \<open>None\<close> and takes its default.\<close>

definition BloomFilter_new ::
  "int option \<Rightarrow> real option \<Rightarrow> Buffer option \<Rightarrow> error + BloomFilter" where
  "BloomFilter_new size_arg slices_arg buf =
     (let sz = (case size_arg of None \<Rightarrow> 16 | Some n \<Rightarrow> n);
          sl = (case slices_arg of None \<Rightarrow> 2 | Some k \<Rightarrow> k)
      in case Bitfield_new sz buf of
           Inl e \<Rightarrow> Inl e
         | Inr bf \<Rightarrow> Inr \<lparr>size' = sz, slices = sl, bitfield = bf\<rparr>)"

definition BloomFilter_add :: "data \<Rightarrow> BloomFilter \<Rightarrow> BloomFilter" where
  "BloomFilter_add key f =
     f\<lparr>bitfield := foldl (\<lambda>bf h. Bitfield_set h True bf) (bitfield f)
                      (calulateHashes key (size' f) (slices f))\<rparr>"

fun has_loop :: "number list \<Rightarrow> Bitfield \<Rightarrow> bool" where
  "has_loop [] bf = True"
| "has_loop (h # hashes) bf = (if \<not> Bitfield_get h bf then False else has_loop hashes bf)"

definition BloomFilter_has :: "data \<Rightarrow> BloomFilter \<Rightarrow> bool" where
  "BloomFilter_has key f = has_loop (calulateHashes key (size' f) (slices f)) (bitfield f)"

text \<open>
  \<open>destringify\<close> takes the parsed JSON of a filter, which has the filter's own
  structure: \<open>{size, slices, bitfield: {buffer}}\<close>.
\<close>

definition BloomFilter_destringify :: "BloomFilter \<Rightarrow> error + BloomFilter" where
  "BloomFilter_destringify d =
     (case BloomFilter_new (Some (size' d)) (Some (slices d)) None of
        Inl e \<Rightarrow> Inl e
      | Inr f \<Rightarrow> Inr (f\<lparr>bitfield := (bitfield f)\<lparr>buffer := buffer (bitfield d)\<rparr>\<rparr>))"

section \<open>lib/bloom.js: SafeBloomFilter\<close>

record SafeBloomFilter =
  capacity :: real
  errorRate :: real
  count :: nat
  filter' :: BloomFilter

text \<open>
  When \<open>calculateSize\<close> is not finite, \<open>Buffer.alloc\<close> rejects the byte count
  computed from it.  The default error rate is the double nearest to 0.1.
\<close>

definition SafeBloomFilter_new ::
  "Math \<Rightarrow> real option \<Rightarrow> real option \<Rightarrow> Buffer option \<Rightarrow> error + SafeBloomFilter" where
  "SafeBloomFilter_new Math capacity_arg errorRate_arg buf =
     (let cap = (case capacity_arg of None \<Rightarrow> 20 | Some c \<Rightarrow> c);
          err = (case errorRate_arg of None \<Rightarrow> rnd 0.1 | Some e \<Rightarrow> e)
      in case calculateSize Math cap err of
           None \<Rightarrow> Inl RangeError
         | Some sz \<Rightarrow>
             (case BloomFilter_new (Some sz) (Some (calculateSlices Math sz cap)) buf of
                Inl e \<Rightarrow> Inl e
              | Inr f \<Rightarrow> Inr \<lparr>capacity = cap, errorRate = err, count = 0, filter' = f\<rparr>))"

definition SafeBloomFilter_add :: "data \<Rightarrow> SafeBloomFilter \<Rightarrow> bool \<times> SafeBloomFilter" where
  "SafeBloomFilter_add key s =
     (if real (count s) \<ge> capacity s then (False, s)
      else (True, s\<lparr>filter' := BloomFilter_add key (filter' s), count := count s + 1\<rparr>))"

definition SafeBloomFilter_has :: "data \<Rightarrow> SafeBloomFilter \<Rightarrow> bool" where
  "SafeBloomFilter_has key s = BloomFilter_has key (filter' s)"

definition SafeBloomFilter_destringify ::
  "Math \<Rightarrow> SafeBloomFilter \<Rightarrow> error + SafeBloomFilter" where
  "SafeBloomFilter_destringify Math d =
     (case SafeBloomFilter_new Math (Some (capacity d)) (Some (errorRate d)) None of
        Inl e \<Rightarrow> Inl e
      | Inr s \<Rightarrow>
          Inr (s\<lparr>count := count d,
                 filter' := (filter' s)\<lparr>bitfield :=
                   (bitfield (filter' s))\<lparr>buffer := buffer (bitfield (filter' d))\<rparr>\<rparr>\<rparr>))"

section \<open>lib/bloom.js: ScalingBloomFilter\<close>

record ScalingBloomFilter =
  errorRate' :: real
  ratio :: real
  scaling :: real
  initialCapacity :: real
  filters :: "SafeBloomFilter list"

record ScalingOptions =
  opt_ratio :: "real option"
  opt_scaling :: "real option"
  opt_initialCapacity :: "real option"

text \<open>\<open>x || d\<close> on an optional number: the default for \<open>undefined\<close> and for 0.\<close>

definition or_default :: "'a::zero option \<Rightarrow> 'a \<Rightarrow> 'a" where
  "or_default x d = (case x of None \<Rightarrow> d | Some v \<Rightarrow> if v = 0 then d else v)"

text \<open>
  The capacity and the error rate of a generation are a difference and products of
  doubles.  When one of them is an infinity, the size that the constructor of
  \<open>SafeBloomFilter\<close> computes from it is an infinity or \<open>NaN\<close>, and \<open>Buffer.alloc\<close>
  throws a \<open>RangeError\<close>.  The defaults are the doubles nearest to 0.1 and 0.9.
\<close>

definition ScalingBloomFilter_new ::
  "Math \<Rightarrow> real option \<Rightarrow> ScalingOptions \<Rightarrow> error + ScalingBloomFilter" where
  "ScalingBloomFilter_new Math errorRate_arg options =
     (let err = (case errorRate_arg of None \<Rightarrow> rnd 0.1 | Some e \<Rightarrow> e);
          r = or_default (opt_ratio options) (rnd 0.9);
          sc = or_default (opt_scaling options) 2;
          ic = or_default (opt_initialCapacity options) 1000
      in case double (1 - r) of
           None \<Rightarrow> Inl RangeError
         | Some d \<Rightarrow>
             (case double (err * d) of
                None \<Rightarrow> Inl RangeError
              | Some e \<Rightarrow>
                  (case SafeBloomFilter_new Math (Some ic) (Some e) None of
                     Inl x \<Rightarrow> Inl x
                   | Inr f \<Rightarrow> Inr \<lparr>errorRate' = err, ratio = r, scaling = sc,
                                    initialCapacity = ic, filters = [f]\<rparr>)))"

text \<open>What \<open>add\<close> returns: \<open>undefined\<close> (a bare \<open>return;\<close>) or \<open>this\<close>.\<close>

datatype returned = Undefined | This

definition ScalingBloomFilter_add ::
  "Math \<Rightarrow> data \<Rightarrow> ScalingBloomFilter \<Rightarrow> error + returned \<times> ScalingBloomFilter" where
  "ScalingBloomFilter_add Math key s =
     (if filters s = [] then Inl TypeError
      else
        let f = last (filters s)
        in case SafeBloomFilter_add key f of
             (True, f1) \<Rightarrow> Inr (Undefined, s\<lparr>filters := butlast (filters s) @ [f1]\<rparr>)
           | (False, f1) \<Rightarrow>
               (case double (capacity f1 * scaling s) of
                  None \<Rightarrow> Inl RangeError
                | Some c \<Rightarrow>
                    (case double (errorRate f1 * ratio s) of
                       None \<Rightarrow> Inl RangeError
                     | Some e \<Rightarrow>
                         (case SafeBloomFilter_new Math (Some c) (Some e) None of
                            Inl x \<Rightarrow> Inl x
                          | Inr g \<Rightarrow>
                              Inr (This, s\<lparr>filters := butlast (filters s) @ [f1] @
                                [snd (SafeBloomFilter_add key g)]\<rparr>)))))"

text \<open>The loop of \<open>has\<close> runs from the last filter to the first.\<close>

fun ScalingBloomFilter_has_loop :: "data \<Rightarrow> SafeBloomFilter list \<Rightarrow> bool" where
  "ScalingBloomFilter_has_loop key [] = False"
| "ScalingBloomFilter_has_loop key (f # rest) =
     (if SafeBloomFilter_has key f then True else ScalingBloomFilter_has_loop key rest)"

definition ScalingBloomFilter_has :: "data \<Rightarrow> ScalingBloomFilter \<Rightarrow> bool" where
  "ScalingBloomFilter_has key s = ScalingBloomFilter_has_loop key (rev (filters s))"

fun destringify_filters :: "Math \<Rightarrow> SafeBloomFilter list \<Rightarrow> SafeBloomFilter list \<Rightarrow>
    error + SafeBloomFilter list" where
  "destringify_filters Math [] acc = Inr acc"
| "destringify_filters Math (d # ds) acc =
     (case SafeBloomFilter_destringify Math d of
        Inl e \<Rightarrow> Inl e
      | Inr f \<Rightarrow> destringify_filters Math ds (acc @ [f]))"

definition ScalingBloomFilter_destringify ::
  "Math \<Rightarrow> ScalingBloomFilter \<Rightarrow> error + ScalingBloomFilter" where
  "ScalingBloomFilter_destringify Math d =
     (case ScalingBloomFilter_new Math (Some (errorRate' d))
             \<lparr>opt_ratio = Some (ratio d), opt_scaling = Some (scaling d),
              opt_initialCapacity = Some (initialCapacity d)\<rparr> of
        Inl e \<Rightarrow> Inl e
      | Inr s \<Rightarrow>
          (case destringify_filters Math (filters d) [] of
             Inl e \<Rightarrow> Inl e
           | Inr fs \<Rightarrow> Inr (s\<lparr>filters := fs\<rparr>)))"

section \<open>lib/bloom.js: AttenuatedBloomFilter\<close>

text \<open>
  The class extends \<open>Array\<close>: \<open>levels\<close> are the array's elements, so that \<open>A[i]\<close>
  is \<open>levels A ! i\<close>.
\<close>

record AttenuatedBloomFilter =
  bitfieldSize :: nat
  filterDepth :: nat
  levels :: "BloomFilter list"

record AttenuatedOptions =
  opt_bitfieldSize :: "nat option"
  opt_filterDepth :: "nat option"

text \<open>The constructor's loop, with \<open>n\<close> rounds left.\<close>

fun push_filters :: "nat \<Rightarrow> nat \<Rightarrow> BloomFilter list \<Rightarrow> error + BloomFilter list" where
  "push_filters bs 0 acc = Inr acc"
| "push_filters bs (Suc n) acc =
     (case BloomFilter_new (Some (int bs)) (Some 2) None of
        Inl e \<Rightarrow> Inl e
      | Inr f \<Rightarrow> push_filters bs n (acc @ [f]))"

definition AttenuatedBloomFilter_new :: "AttenuatedOptions \<Rightarrow> error + AttenuatedBloomFilter" where
  "AttenuatedBloomFilter_new options =
     (let bs = or_default (opt_bitfieldSize options) 160;
          fd = or_default (opt_filterDepth options) 3
      in case push_filters bs fd [] of
           Inl e \<Rightarrow> Inl e
         | Inr fs \<Rightarrow> Inr \<lparr>bitfieldSize = bs, filterDepth = fd, levels = fs\<rparr>)"

definition toHexArray :: "AttenuatedBloomFilter \<Rightarrow> string list" where
  "toHexArray a = map (\<lambda>bloomFilter. toString_hex (toBuffer (bitfield bloomFilter))) (levels a)"

text \<open>
  The inner loop of \<open>merge\<close>: each foreign byte is ORed into the local byte at the
  same position; a write beyond the local buffer is ignored.
\<close>

fun or_bytes :: "Buffer \<Rightarrow> Buffer \<Rightarrow> Buffer" where
  "or_bytes [] foreignBytes = []"
| "or_bytes (l # ls) [] = l # ls"
| "or_bytes (l # ls) (byteValue # rest) = (l OR byteValue) # or_bytes ls rest"

text \<open>
  The outer loop of \<open>merge\<close>, at \<open>localIndex\<close>.  The result is the local array as the
  loop leaves it, and the error if one was thrown: reading \<open>bitfield\<close> of the missing
  element \<open>foreignFilters[localIndex - 1]\<close> throws a \<open>TypeError\<close>, before the test
  \<open>!foreignFilters[localIndex - 1]\<close> is reached.  The foreign array is a value of its
  own, not the local array itself.
\<close>

function merge_loop ::
  "nat \<Rightarrow> BloomFilter list \<Rightarrow> BloomFilter list \<Rightarrow> BloomFilter list \<times> error option" where
  "merge_loop localIndex local foreignFilters =
     (if localIndex < length local then
        if localIndex = 0 then merge_loop (localIndex + 1) local foreignFilters
        else if localIndex - 1 < length foreignFilters then
          let foreignFilter = foreignFilters ! (localIndex - 1);
              localFilter = local ! localIndex;
              merged = localFilter\<lparr>bitfield := (bitfield localFilter)\<lparr>buffer :=
                         or_bytes (buffer (bitfield localFilter))
                           (buffer (bitfield foreignFilter))\<rparr>\<rparr>
          in merge_loop (localIndex + 1) (local[localIndex := merged]) foreignFilters
        else (local, Some TypeError)
      else (local, None))"
  by pat_completeness auto
termination
  by (relation "measure (\<lambda>(localIndex, local, foreignFilters). length local - localIndex)") auto

declare merge_loop.simps [simp del]

definition AttenuatedBloomFilter_merge ::
  "AttenuatedBloomFilter \<Rightarrow> AttenuatedBloomFilter \<Rightarrow> AttenuatedBloomFilter \<times> error option" where
  "AttenuatedBloomFilter_merge a foreignFilters =
     (case merge_loop 0 (levels a) (levels foreignFilters) of
        (ls, err) \<Rightarrow> (a\<lparr>levels := ls\<rparr>, err))"

text \<open>The \<open>forEach\<close> of \<open>from\<close>: \<open>filters[i].bitfield.buffer = Buffer.from(hexString, 'hex')\<close>.\<close>

fun assign_buffers :: "BloomFilter list \<Rightarrow> string list \<Rightarrow> error + BloomFilter list" where
  "assign_buffers fs [] = Inr fs"
| "assign_buffers [] (hexString # rest) = Inl TypeError"
| "assign_buffers (f # fs) (hexString # rest) =
     (case assign_buffers fs rest of
        Inl e \<Rightarrow> Inl e
      | Inr fs1 \<Rightarrow> Inr (f\<lparr>bitfield := (bitfield f)\<lparr>buffer := from_hex hexString\<rparr>\<rparr> # fs1))"

definition AttenuatedBloomFilter_from :: "string list \<Rightarrow> error + AttenuatedBloomFilter" where
  "AttenuatedBloomFilter_from hexFilters =
     (case hexFilters of
        [] \<Rightarrow> Inl TypeError
      | first # _ \<Rightarrow>
          (case AttenuatedBloomFilter_new
                  \<lparr>opt_bitfieldSize = Some (length (from_hex first) * 8),
                   opt_filterDepth = Some (length hexFilters)\<rparr> of
             Inl e \<Rightarrow> Inl e
           | Inr a \<Rightarrow>
               (case assign_buffers (levels a) hexFilters of
                  Inl e \<Rightarrow> Inl e
                | Inr fs \<Rightarrow> Inr (a\<lparr>levels := fs\<rparr>))))"

text \<open>
  \<open>A[i].add(key)\<close> on an attenuated filter; \<open>A[i]\<close> is \<open>undefined\<close> beyond the last
  level, and the call throws.
\<close>

definition level_add ::
  "nat \<Rightarrow> data \<Rightarrow> AttenuatedBloomFilter \<Rightarrow> error + AttenuatedBloomFilter" where
  "level_add i key a =
     (if i < length (levels a)
      then Inr (a\<lparr>levels := (levels a)[i := BloomFilter_add key (levels a ! i)]\<rparr>)
      else Inl TypeError)"

section \<open>Sequences of calls\<close>

text \<open>
  A sequence of \<open>add\<close> calls on one filter, in order; a thrown error ends the sequence.
  \<open>SafeBloomFilter_adds\<close> also collects what each call returns.
\<close>

definition BloomFilter_adds :: "data list \<Rightarrow> BloomFilter \<Rightarrow> BloomFilter" where
  "BloomFilter_adds keys f = foldl (\<lambda>g key. BloomFilter_add key g) f keys"

fun SafeBloomFilter_adds :: "data list \<Rightarrow> SafeBloomFilter \<Rightarrow> bool list \<times> SafeBloomFilter" where
  "SafeBloomFilter_adds [] s = ([], s)"
| "SafeBloomFilter_adds (key # rest) s =
     (case SafeBloomFilter_add key s of
        (wasAdded, s1) \<Rightarrow>
          (case SafeBloomFilter_adds rest s1 of (rs, s2) \<Rightarrow> (wasAdded # rs, s2)))"

fun ScalingBloomFilter_adds ::
  "Math \<Rightarrow> data list \<Rightarrow> ScalingBloomFilter \<Rightarrow> error + ScalingBloomFilter" where
  "ScalingBloomFilter_adds Math [] s = Inr s"
| "ScalingBloomFilter_adds Math (key # rest) s =
     (case ScalingBloomFilter_add Math key s of
        Inl e \<Rightarrow> Inl e
      | Inr (r, s1) \<Rightarrow> ScalingBloomFilter_adds Math rest s1)"

fun level_adds ::
  "(nat \<times> data) list \<Rightarrow> AttenuatedBloomFilter \<Rightarrow> error + AttenuatedBloomFilter" where
  "level_adds [] a = Inr a"
| "level_adds ((i, key) # rest) a =
     (case level_add i key a of
        Inl e \<Rightarrow> Inl e
      | Inr a1 \<Rightarrow> level_adds rest a1)"

section \<open>Invariants\<close>

text \<open>
  A well-formed \<open>BloomFilter\<close> derives no index at all, or has a positive size and a
  buffer of exactly the bytes that the \<open>Bitfield\<close> constructor gives to that size.
\<close>

definition BloomFilter_inv :: "BloomFilter \<Rightarrow> bool" where
  "BloomFilter_inv f =
     (slices f \<le> 0 \<or>
      (1 \<le> size' f \<and> int (length (buffer (bitfield f))) = - ((- size' f) div 8)))"

text \<open>
  A well-formed \<open>ScalingBloomFilter\<close> has a tail, a positive scaling factor, and
  well-formed generations whose capacity is not negative (the product that gives the
  capacity of a new generation can underflow to 0).
\<close>

definition ScalingBloomFilter_inv :: "ScalingBloomFilter \<Rightarrow> bool" where
  "ScalingBloomFilter_inv s =
     (filters s \<noteq> [] \<and> 0 < scaling s \<and>
      (\<forall>f \<in> set (filters s). 0 \<le> capacity f \<and> BloomFilter_inv (filter' f)))"

text \<open>
  A \<open>SafeBloomFilter\<close> is consistent when its owned filter has the size and slice count
  that the constructor computes from the capacity and the error rate.  A
  \<open>ScalingBloomFilter\<close> is consistent when its parameters are not 0 (the constructor
  replaces a 0 by the default), its constructor succeeds on them, and its generations
  are consistent.
\<close>

definition SafeBloomFilter_consistent :: "Math \<Rightarrow> SafeBloomFilter \<Rightarrow> bool" where
  "SafeBloomFilter_consistent Math s =
     (calculateSize Math (capacity s) (errorRate s) = Some (size' (filter' s)) \<and>
      slices (filter' s) = calculateSlices Math (size' (filter' s)) (capacity s) \<and>
      0 \<le> - ((- size' (filter' s)) div 8))"

definition ScalingBloomFilter_consistent :: "Math \<Rightarrow> ScalingBloomFilter \<Rightarrow> bool" where
  "ScalingBloomFilter_consistent Math s =
     (ratio s \<noteq> 0 \<and> scaling s \<noteq> 0 \<and> initialCapacity s \<noteq> 0 \<and>
      \<not> isl (ScalingBloomFilter_new Math (Some (errorRate' s))
               \<lparr>opt_ratio = Some (ratio s), opt_scaling = Some (scaling s),
                opt_initialCapacity = Some (initialCapacity s)\<rparr>) \<and>
      (\<forall>f \<in> set (filters s). SafeBloomFilter_consistent Math f))"

text \<open>
  An attenuated filter as its constructor builds it: \<open>filterDepth\<close> levels of size
  \<open>bitfieldSize\<close> with two slices each.
\<close>

definition AttenuatedBloomFilter_inv :: "AttenuatedBloomFilter \<Rightarrow> bool" where
  "AttenuatedBloomFilter_inv a =
     (0 < bitfieldSize a \<and> 0 < filterDepth a \<and> length (levels a) = filterDepth a \<and>
      (\<forall>f \<in> set (levels a). size' f = int (bitfieldSize a) \<and> slices f = 2 \<and>
         int (length (buffer (bitfield f))) = - ((- int (bitfieldSize a)) div 8)))"

section \<open>Bits and bytes\<close>

lemma js_and_byte: "js_and (uint (b::byte)) m = uint (b AND word_of_int m)"
  unfolding js_and_def ToInt32_def
  by (rule bit_eqI) (auto simp: bit_simps min_def dest: bit_imp_le_length split: if_splits)

lemma js_or_byte: "(word_of_int (js_or (uint (b::byte)) m) :: byte) = b OR word_of_int m"
  unfolding js_or_def ToInt32_def
  by (rule bit_eqI) (auto simp: bit_simps min_def dest: bit_imp_le_length split: if_splits)

lemma js_and_zero: "js_and 0 m = 0"
  by (simp add: js_and_def ToInt32_def)

lemma js_shl_one: "0 \<le> k \<Longrightarrow> k < 8 \<Longrightarrow> js_shl 1 k = 2 ^ nat k"
proof -
  assume "0 \<le> k" "k < 8"
  then have "k \<in> {0, 1, 2, 3, 4, 5, 6, 7}" by auto
  then show ?thesis
    by (auto simp: js_shl_def ToInt32_def ToUint32_def)
qed

lemma mask_nonzero: "0 \<le> k \<Longrightarrow> k < 8 \<Longrightarrow> (word_of_int (js_shl 1 k) :: byte) \<noteq> 0"
proof -
  assume "0 \<le> k" "k < 8"
  then have "k \<in> {0, 1, 2, 3, 4, 5, 6, 7}" by auto
  then show ?thesis
    by (auto simp: js_shl_def ToInt32_def ToUint32_def)
qed

lemma Bitfield_get_iff:
  "Bitfield_get h bf \<longleftrightarrow>
     (nat (js_ushr (int_of h) 3) < length (buffer bf) \<and>
      buffer bf ! nat (js_ushr (int_of h) 3) AND
        (word_of_int (js_shl 1 (int_of (js_rem h 8))) :: byte) \<noteq> 0)"
  by (auto simp: Bitfield_get_def Buffer_read_def js_and_byte js_and_zero uint_0_iff)

lemma buffer_Bitfield_set:
  "buffer (Bitfield_set h True bf) =
     (let pos = nat (js_ushr (int_of h) 3)
      in if pos < length (buffer bf)
         then (buffer bf)[pos := buffer bf ! pos OR word_of_int (js_shl 1 (int_of (js_rem h 8)))]
         else buffer bf)"
  by (simp add: Bitfield_set_def Buffer_write_def Buffer_read_def js_or_byte Let_def)

lemma length_Bitfield_set: "length (buffer (Bitfield_set h True bf)) = length (buffer bf)"
  by (simp add: buffer_Bitfield_set Let_def)

lemma and_or_nonzero: "(b::byte) AND m \<noteq> 0 \<Longrightarrow> (b OR w) AND m \<noteq> 0"
  by (metis bit.conj_disj_distrib2 or_eq_0_iff)

lemma or_and_self: "((b::byte) OR m) AND m = m"
  by (simp add: bit_eq_iff bit_simps)

lemma Bitfield_get_mono: "Bitfield_get h bf \<Longrightarrow> Bitfield_get h (Bitfield_set h' True bf)"
  by (auto simp: Bitfield_get_iff buffer_Bitfield_set Let_def nth_list_update and_or_nonzero)

lemma Bitfield_get_set:
  "nat (js_ushr (int_of h) 3) < length (buffer bf) \<Longrightarrow>
   (word_of_int (js_shl 1 (int_of (js_rem h 8))) :: byte) \<noteq> 0 \<Longrightarrow>
   Bitfield_get h (Bitfield_set h True bf)"
  by (simp add: Bitfield_get_iff buffer_Bitfield_set Let_def or_and_self)

section \<open>The derived indices\<close>

lemma calulateHashes_loop_eq:
  "calulateHashes_loop h1 h2 sz sl i acc =
     acc @ map (\<lambda>j. js_rem (Num (js_add h1 (js_mul (int j) h2))) sz) [i..<nat \<lceil>sl\<rceil>]"
proof (induction h1 h2 sz sl i acc rule: calulateHashes_loop.induct)
  case (1 h1 h2 sz sl i acc)
  show ?case
  proof (cases "real i < sl")
    case True
    then have "int i < \<lceil>sl\<rceil>" by (simp add: less_ceiling_iff)
    then have "i < nat \<lceil>sl\<rceil>" by linarith
    then have "[i..<nat \<lceil>sl\<rceil>] = i # [i + 1..<nat \<lceil>sl\<rceil>]"
      by (simp add: upt_conv_Cons)
    with True "1.IH" show ?thesis
      by (subst calulateHashes_loop.simps) simp
  next
    case False
    then have "\<lceil>sl\<rceil> \<le> int i" by (simp add: ceiling_le_iff)
    then have "nat \<lceil>sl\<rceil> \<le> i" by linarith
    with False show ?thesis
      by (subst calulateHashes_loop.simps) simp
  qed
qed

lemma calulateHashes_eq:
  "calulateHashes key sz sl =
     map (\<lambda>j. js_rem (Num (js_add (fnv (Buf (utf8 ''S'')) key)
                              (js_mul (int j) (fnv (Buf (utf8 ''W'')) key)))) sz)
       [0..<nat \<lceil>sl\<rceil>]"
  by (simp add: calulateHashes_def calulateHashes_loop_eq Let_def)

lemma length_calulateHashes: "length (calulateHashes key sz sl) = nat \<lceil>sl\<rceil>"
  by (simp add: calulateHashes_eq)

lemma fnv_range: "0 \<le> fnv seed d \<and> fnv seed d < 2 ^ 32"
  using take_bit_int_less_exp [of 32] by (simp add: fnv_def js_ushr_def ToUint32_def)

lemma exponent53_small: "a < 2 ^ 53 \<Longrightarrow> exponent53 a = 0"
  by (subst exponent53.simps) simp

lemma round53_exact: "\<bar>x\<bar> < 2 ^ 53 \<Longrightarrow> round53 x = x"
  by (simp add: round53_def exponent53_small Let_def mult_sgn_abs)

lemma round53_nonneg: "0 \<le> x \<Longrightarrow> 0 \<le> round53 x"
  by (auto simp: round53_def Let_def sgn_if pos_imp_zdiv_nonneg_iff)

lemma js_add_nonneg: "0 \<le> a \<Longrightarrow> 0 \<le> b \<Longrightarrow> 0 \<le> js_add a b"
  by (simp add: js_add_def round53_nonneg)

lemma js_mul_nonneg: "0 \<le> a \<Longrightarrow> 0 \<le> b \<Longrightarrow> 0 \<le> js_mul a b"
  by (simp add: js_mul_def round53_nonneg)

lemma js_rem_range:
  "0 \<le> a \<Longrightarrow> 1 \<le> sz \<Longrightarrow> \<exists>v. js_rem (Num a) sz = Num v \<and> 0 \<le> v \<and> v < sz"
  by (auto simp: sgn_if)

lemma calulateHashes_range:
  assumes "h \<in> set (calulateHashes key sz sl)" and "1 \<le> sz"
  shows "\<exists>v. h = Num v \<and> 0 \<le> v \<and> v < sz"
proof -
  from assms(1) obtain j where
    h: "h = js_rem (Num (js_add (fnv (Buf (utf8 ''S'')) key)
                          (js_mul (int j) (fnv (Buf (utf8 ''W'')) key)))) sz"
    by (auto simp: calulateHashes_eq simp del: js_rem.simps)
  have "0 \<le> js_add (fnv (Buf (utf8 ''S'')) key) (js_mul (int j) (fnv (Buf (utf8 ''W'')) key))"
    by (intro js_add_nonneg js_mul_nonneg) (simp_all add: fnv_range)
  from js_rem_range [OF this assms(2)] h show ?thesis by simp
qed

lemma index_in_buffer:
  assumes "0 \<le> v" "v < sz" "int n = - ((- sz) div 8)"
  shows "nat (js_ushr v 3) < n"
proof -
  have "js_ushr v 3 = (v mod 2 ^ 32) div 8"
    by (simp add: js_ushr_def ToUint32_def drop_bit_eq_div take_bit_eq_mod)
  moreover have "(v mod 2 ^ 32) div 8 \<le> v div 8"
    using assms(1) by (intro zdiv_mono1) (simp_all add: zmod_le_nonneg_dividend)
  moreover have "v div 8 < - ((- sz) div 8)"
    using assms(1,2) by linarith
  moreover have "0 \<le> (v mod 2 ^ 32) div 8"
    by (simp add: pos_imp_zdiv_nonneg_iff)
  ultimately show ?thesis using assms(3) by linarith
qed

lemma index_mask_nonzero:
  assumes "0 \<le> v"
  shows "(word_of_int (js_shl 1 (int_of (js_rem (Num v) 8))) :: byte) \<noteq> 0"
proof -
  have "int_of (js_rem (Num v) 8) = v mod 8"
    using assms by (simp add: sgn_if)
  then show ?thesis
    by (simp add: mask_nonzero)
qed

section \<open>BloomFilter: add and has\<close>

lemma has_loop_iff: "has_loop hashes bf \<longleftrightarrow> (\<forall>h \<in> set hashes. Bitfield_get h bf)"
  by (induction hashes) auto

lemma length_foldl_set:
  "length (buffer (foldl (\<lambda>bf h. Bitfield_set h True bf) bf hashes)) = length (buffer bf)"
  by (induction hashes arbitrary: bf) (simp_all add: length_Bitfield_set)

lemma foldl_set_mono:
  "Bitfield_get h bf \<Longrightarrow> Bitfield_get h (foldl (\<lambda>bf h. Bitfield_set h True bf) bf hashes)"
  by (induction hashes arbitrary: bf) (simp_all add: Bitfield_get_mono)

lemma foldl_set_get:
  assumes "h \<in> set hashes"
    and "nat (js_ushr (int_of h) 3) < length (buffer bf)"
    and "(word_of_int (js_shl 1 (int_of (js_rem h 8))) :: byte) \<noteq> 0"
  shows "Bitfield_get h (foldl (\<lambda>bf h. Bitfield_set h True bf) bf hashes)"
  using assms
proof (induction hashes arbitrary: bf)
  case Nil
  then show ?case by simp
next
  case (Cons x xs)
  show ?case
  proof (cases "h = x")
    case True
    with Cons.prems have "Bitfield_get h (Bitfield_set x True bf)"
      by (simp add: Bitfield_get_set)
    then show ?thesis by (simp add: foldl_set_mono)
  next
    case False
    with Cons.prems have "h \<in> set xs" by simp
    moreover from Cons.prems
    have "nat (js_ushr (int_of h) 3) < length (buffer (Bitfield_set x True bf))"
      by (simp add: length_Bitfield_set)
    ultimately show ?thesis
      using Cons.IH Cons.prems(3) by simp
  qed
qed

lemma BloomFilter_add_fields [simp]:
  "size' (BloomFilter_add key f) = size' f"
  "slices (BloomFilter_add key f) = slices f"
  "length (buffer (bitfield (BloomFilter_add key f))) = length (buffer (bitfield f))"
  by (simp_all add: BloomFilter_add_def length_foldl_set)

lemma BloomFilter_inv_add: "BloomFilter_inv f \<Longrightarrow> BloomFilter_inv (BloomFilter_add key f)"
  by (simp add: BloomFilter_inv_def)

lemma BloomFilter_has_add:
  assumes "BloomFilter_inv f"
  shows "BloomFilter_has key (BloomFilter_add key f)"
proof (cases "slices f \<le> 0")
  case True
  then have "nat \<lceil>slices f\<rceil> = 0"
    by (simp add: ceiling_le_iff)
  then show ?thesis
    by (simp add: BloomFilter_has_def has_loop_iff calulateHashes_eq)
next
  case False
  with assms have sz: "1 \<le> size' f"
    and len: "int (length (buffer (bitfield f))) = - ((- size' f) div 8)"
    by (simp_all add: BloomFilter_inv_def)
  show ?thesis
    unfolding BloomFilter_has_def has_loop_iff
  proof
    fix h
    assume "h \<in> set (calulateHashes key (size' (BloomFilter_add key f))
                      (slices (BloomFilter_add key f)))"
    then have h: "h \<in> set (calulateHashes key (size' f) (slices f))" by simp
    from calulateHashes_range [OF h sz] obtain v where
      v: "h = Num v" "0 \<le> v" "v < size' f" by blast
    have "nat (js_ushr (int_of h) 3) < length (buffer (bitfield f))"
      using index_in_buffer [OF v(2) v(3) len] v(1) by simp
    moreover have "(word_of_int (js_shl 1 (int_of (js_rem h 8))) :: byte) \<noteq> 0"
      using index_mask_nonzero [OF v(2)] v(1) by simp
    ultimately show "Bitfield_get h (bitfield (BloomFilter_add key f))"
      using h by (simp add: BloomFilter_add_def foldl_set_get)
  qed
qed

lemma BloomFilter_has_mono:
  "BloomFilter_has key f \<Longrightarrow> BloomFilter_has key (BloomFilter_add key' f)"
  by (simp add: BloomFilter_has_def has_loop_iff) (simp add: BloomFilter_add_def foldl_set_mono)

lemma BloomFilter_has_adds:
  "BloomFilter_has key f \<Longrightarrow> BloomFilter_has key (BloomFilter_adds keys f)"
  unfolding BloomFilter_adds_def
  by (induction keys arbitrary: f) (simp_all add: BloomFilter_has_mono)

lemma BloomFilter_inv_adds: "BloomFilter_inv f \<Longrightarrow> BloomFilter_inv (BloomFilter_adds keys f)"
  unfolding BloomFilter_adds_def
  by (induction keys arbitrary: f) (simp_all add: BloomFilter_inv_add)

section \<open>Rounding to a double\<close>

lemma round_even_error: "\<bar>real_of_int (round_even m) - m\<bar> \<le> 1 / 2"
  unfolding round_even_def Let_def by (auto simp: abs_le_iff)

lemma round_even_nonneg: "0 \<le> m \<Longrightarrow> 0 \<le> round_even m"
  unfolding round_even_def Let_def by (auto simp: zero_le_floor)

lemma round_even_nonpos: "m \<le> 0 \<Longrightarrow> round_even m \<le> 0"
  unfolding round_even_def Let_def
  by (auto simp: floor_le_zero) (linarith+)?

lemma ulp_pos: "0 < ulp x"
  by (simp add: ulp_def)

lemma rnd_error: "\<bar>rnd x - x\<bar> \<le> ulp x / 2"
proof (cases "x = 0")
  case True
  then show ?thesis using ulp_pos [of x] by (simp add: rnd_def)
next
  case False
  have "\<bar>real_of_int (round_even (x / ulp x)) - x / ulp x\<bar> * ulp x \<le> 1 / 2 * ulp x"
    using round_even_error ulp_pos [of x] by (intro mult_right_mono) simp_all
  moreover have "\<bar>real_of_int (round_even (x / ulp x)) - x / ulp x\<bar> * ulp x =
      \<bar>real_of_int (round_even (x / ulp x)) * ulp x - x\<bar>"
    using ulp_pos [of x] by (simp add: abs_mult_pos left_diff_distrib)
  ultimately show ?thesis using False by (simp add: rnd_def)
qed

lemma rnd_nonneg: "0 \<le> x \<Longrightarrow> 0 \<le> rnd x"
  using ulp_pos [of x] by (simp add: rnd_def round_even_nonneg)

lemma rnd_nonpos: "x \<le> 0 \<Longrightarrow> rnd x \<le> 0"
  using ulp_pos [of x] round_even_nonpos [of "x / ulp x"]
  by (simp add: rnd_def mult_le_0_iff divide_le_0_iff)

lemma ulp_normal:
  assumes "1 / 2 ^ 1022 \<le> \<bar>x\<bar>"
  shows "ulp x \<le> \<bar>x\<bar> / 2 ^ 52"
proof -
  have pos: "0 < \<bar>x\<bar>" using assms by (smt (verit) divide_pos_pos zero_less_power)
  have "(2 :: real) powr (- 1022) = 1 / 2 ^ 1022"
    by (simp add: powr_minus_divide powr_realpow [symmetric])
  with assms have "2 powr (- 1022) \<le> \<bar>x\<bar>" by simp
  then have "- 1022 \<le> log 2 \<bar>x\<bar>"
    using pos by (simp add: le_log_iff)
  then have "- 1022 \<le> \<lfloor>log 2 \<bar>x\<bar>\<rfloor>" by (simp add: le_floor_iff)
  then have "max \<lfloor>log 2 \<bar>x\<bar>\<rfloor> (- 1022) = \<lfloor>log 2 \<bar>x\<bar>\<rfloor>"
    by (rule max_absorb1)
  then have "ulp x = 2 powr (real_of_int \<lfloor>log 2 \<bar>x\<bar>\<rfloor> - 52)"
    unfolding ulp_def by simp
  also have "\<dots> = 2 powr real_of_int \<lfloor>log 2 \<bar>x\<bar>\<rfloor> / 2 ^ 52"
    by (simp add: powr_diff powr_realpow [symmetric])
  also have "2 powr real_of_int \<lfloor>log 2 \<bar>x\<bar>\<rfloor> \<le> 2 powr log 2 \<bar>x\<bar>"
    by (intro powr_mono) simp_all
  also have "2 powr log 2 \<bar>x\<bar> = \<bar>x\<bar>"
    using pos by simp
  finally show ?thesis by (simp add: divide_right_mono)
qed

lemma rnd_relative:
  assumes "1 / 2 ^ 1022 \<le> \<bar>x\<bar>"
  shows "\<bar>rnd x - x\<bar> \<le> \<bar>x\<bar> / 2 ^ 53"
  using rnd_error [of x] ulp_normal [OF assms] by simp

lemma round_even_small:
  assumes "\<bar>m\<bar> < 1 / 2"
  shows "round_even m = 0"
proof (cases "0 \<le> m")
  case True
  with assms have "\<lfloor>m\<rfloor> = 0" by (simp add: floor_eq_iff)
  with assms True show ?thesis by (simp add: round_even_def)
next
  case False
  with assms have "\<lfloor>m\<rfloor> = - 1" by (simp add: floor_eq_iff)
  with assms False show ?thesis by (simp add: round_even_def)
qed

lemma rnd_abs_le: "\<bar>rnd x\<bar> \<le> 2 * \<bar>x\<bar>"
proof (cases "\<bar>x\<bar> < ulp x / 2")
  case True
  then have "\<bar>x / ulp x\<bar> < 1 / 2"
    using ulp_pos [of x] by (simp add: field_simps)
  then have "round_even (x / ulp x) = 0"
    by (rule round_even_small)
  then show ?thesis by (simp add: rnd_def)
next
  case False
  with rnd_error [of x] show ?thesis by linarith
qed

lemma rnd_between:
  assumes "1 / 2 ^ 1022 \<le> lo" and "lo \<le> x" and "x \<le> hi"
  shows "lo * (1 - 1 / 2 ^ 53) \<le> rnd x" and "rnd x \<le> hi * (1 + 1 / 2 ^ 53)"
proof -
  have "(0 :: real) < 1 / 2 ^ 1022" by simp
  with assms have pos: "0 < x" by linarith
  with assms have "1 / 2 ^ 1022 \<le> \<bar>x\<bar>" by simp
  from rnd_relative [OF this] pos have r: "\<bar>rnd x - x\<bar> \<le> x / 2 ^ 53" by simp
  have e: "x * (1 - 1 / 2 ^ 53) = x - x / 2 ^ 53" "x * (1 + 1 / 2 ^ 53) = x + x / 2 ^ 53"
    by (simp_all add: algebra_simps)
  have "lo * (1 - 1 / 2 ^ 53) \<le> x * (1 - 1 / 2 ^ 53)"
    using assms(2) by (intro mult_right_mono) simp_all
  with r e(1) show "lo * (1 - 1 / 2 ^ 53) \<le> rnd x"
    by linarith
  have "x * (1 + 1 / 2 ^ 53) \<le> hi * (1 + 1 / 2 ^ 53)"
    using assms(3) by (intro mult_right_mono) simp_all
  with r e(2) show "rnd x \<le> hi * (1 + 1 / 2 ^ 53)"
    by linarith
qed

text \<open>A step of the error analysis: rounding a non-negative value.\<close>

lemma rnd_step:
  assumes "0 \<le> X" and "0 \<le> lo" and "lo * X \<le> v" and "v \<le> hi * X"
    and "1 / 2 ^ 1022 \<le> v"
  shows "lo * (1 - 1 / 2 ^ 53) * X \<le> rnd v" and "rnd v \<le> hi * (1 + 1 / 2 ^ 53) * X"
proof -
  from rnd_between [OF assms(5), of v v]
  have r: "v * (1 - 1 / 2 ^ 53) \<le> rnd v" "rnd v \<le> v * (1 + 1 / 2 ^ 53)" by simp_all
  have "lo * X * (1 - 1 / 2 ^ 53) \<le> v * (1 - 1 / 2 ^ 53)"
    using assms(3) by (intro mult_right_mono) simp_all
  with r(1) show "lo * (1 - 1 / 2 ^ 53) * X \<le> rnd v"
    by (simp add: mult.assoc mult.left_commute mult.commute)
  have "v * (1 + 1 / 2 ^ 53) \<le> hi * X * (1 + 1 / 2 ^ 53)"
    using assms(4) by (intro mult_right_mono) simp_all
  with r(2) show "rnd v \<le> hi * (1 + 1 / 2 ^ 53) * X"
    by (simp add: mult.assoc mult.left_commute mult.commute)
qed


lemma round_even_minus: "round_even (- m) = - round_even m"
proof (cases "m = real_of_int \<lfloor>m\<rfloor>")
  case True
  then have "\<lfloor>- m\<rfloor> = - \<lfloor>m\<rfloor>"
    by (metis floor_of_int of_int_minus)
  with True show ?thesis
    by (simp add: round_even_def)
next
  case False
  then have "\<lfloor>- m\<rfloor> = - \<lfloor>m\<rfloor> - 1"
    by (simp add: floor_minus ceiling_altdef)
  then show ?thesis
    unfolding round_even_def Let_def by auto
qed

lemma rnd_minus: "rnd (- x) = - rnd x"
  by (simp add: rnd_def ulp_def round_even_minus)

lemma rnd_half: "rnd (1 / 2) = 1 / 2"
proof -
  have "log 2 (1 / 2 :: real) = - 1"
    by (simp add: log_divide)
  then have "ulp (1 / 2) = 2 powr (- 53)"
    by (simp add: ulp_def)
  also have "\<dots> = 1 / 2 ^ 53"
    by (simp add: powr_minus_divide powr_realpow [symmetric])
  finally have u: "ulp (1 / 2) = 1 / 2 ^ 53" .
  have "round_even (2 ^ 52) = 2 ^ 52"
    by (simp add: round_even_def)
  then show ?thesis
    by (simp add: rnd_def u)
qed

lemma double_half: "double (1 / 2) = Some (1 / 2)" "double (1 * (1 / 2)) = Some (1 / 2)"
  by (simp_all add: double_def rnd_half)

lemma rnd_0 [simp]: "rnd 0 = 0"
  by (simp add: rnd_def)

lemma Math_log_error: "0 < x \<Longrightarrow> \<bar>Math_log Math x - ln x\<bar> \<le> \<bar>ln x\<bar> / 2 ^ 51"
  using Math_log [of Math] by simp

lemma Math_log_sign:
  assumes "0 < x"
  shows "x \<le> 1 \<Longrightarrow> Math_log Math x \<le> 0" and "1 \<le> x \<Longrightarrow> 0 \<le> Math_log Math x"
proof -
  define e where "e = \<bar>ln x\<bar> / 2 ^ 51"
  have "\<bar>ln x\<bar> / 2 ^ 51 \<le> \<bar>ln x\<bar> / 1"
    by (intro divide_left_mono) simp_all
  then have e: "e \<le> \<bar>ln x\<bar>" by (simp add: e_def)
  from Math_log_error [OF assms, of Math] have d: "\<bar>Math_log Math x - ln x\<bar> \<le> e"
    by (simp add: e_def)
  show "Math_log Math x \<le> 0" if "x \<le> 1"
  proof -
    from that assms have "ln x \<le> 0" by simp
    with e d show ?thesis by linarith
  qed
  show "0 \<le> Math_log Math x" if "1 \<le> x"
  proof -
    from that have "0 \<le> ln x" by simp
    with e d show ?thesis by linarith
  qed
qed

section \<open>Constructors and SafeBloomFilter\<close>

lemma Bitfield_new_length:
  "Bitfield_new n buf = Inr bf \<Longrightarrow> int (length (buffer bf)) = - ((- n) div 8)"
  by (auto simp: Bitfield_new_def Buffer_alloc_def Let_def split: option.splits if_splits)

lemma BloomFilter_new_fields:
  assumes "BloomFilter_new size_arg slices_arg buf = Inr f"
  shows "size' f = (case size_arg of None \<Rightarrow> 16 | Some n \<Rightarrow> n)"
    and "slices f = (case slices_arg of None \<Rightarrow> 2 | Some k \<Rightarrow> k)"
    and "int (length (buffer (bitfield f))) = - ((- size' f) div 8)"
  using assms
  by (auto simp: BloomFilter_new_def Let_def split: sum.splits dest: Bitfield_new_length)

lemma BloomFilter_new_inv:
  "BloomFilter_new size_arg slices_arg buf = Inr f \<Longrightarrow> 1 \<le> size' f \<Longrightarrow> BloomFilter_inv f"
  by (simp add: BloomFilter_inv_def BloomFilter_new_fields(3))

lemma SafeBloomFilter_new_fields:
  assumes "SafeBloomFilter_new Math capacity_arg errorRate_arg buf = Inr s"
  shows "capacity s = (case capacity_arg of None \<Rightarrow> 20 | Some c \<Rightarrow> c)"
    and "errorRate s = (case errorRate_arg of None \<Rightarrow> rnd 0.1 | Some e \<Rightarrow> e)"
    and "count s = 0"
    and "calculateSize Math (capacity s) (errorRate s) = Some (size' (filter' s))"
    and "slices (filter' s) = calculateSlices Math (size' (filter' s)) (capacity s)"
    and "int (length (buffer (bitfield (filter' s)))) = - ((- size' (filter' s)) div 8)"
proof -
  let ?cap = "case capacity_arg of None \<Rightarrow> 20 | Some c \<Rightarrow> c"
  let ?err = "case errorRate_arg of None \<Rightarrow> rnd 0.1 | Some e \<Rightarrow> e"
  from assms obtain sz f where
    sz: "calculateSize Math ?cap ?err = Some sz" and
    f: "BloomFilter_new (Some sz) (Some (calculateSlices Math sz ?cap)) buf = Inr f" and
    s: "s = \<lparr>capacity = ?cap, errorRate = ?err, count = 0, filter' = f\<rparr>"
    by (auto simp: SafeBloomFilter_new_def Let_def split: option.splits sum.splits)
  note ff = BloomFilter_new_fields [OF f]
  show "capacity s = ?cap" "errorRate s = ?err" "count s = 0"
    using s by simp_all
  show "calculateSize Math (capacity s) (errorRate s) = Some (size' (filter' s))"
    using s sz ff(1) by simp
  show "slices (filter' s) = calculateSlices Math (size' (filter' s)) (capacity s)"
    using s ff(1,2) by simp
  show "int (length (buffer (bitfield (filter' s)))) = - ((- size' (filter' s)) div 8)"
    using s ff(3) by simp
qed

lemma calculateSlices_nonpos:
  assumes "sz \<le> 0" and "0 \<le> cap"
  shows "calculateSlices Math sz cap \<le> 0"
proof -
  from assms have "real_of_int sz / cap \<le> 0"
    by (simp add: divide_nonpos_nonneg)
  then have "rnd (real_of_int sz / cap) \<le> 0"
    by (rule rnd_nonpos)
  moreover have "0 \<le> Math_log Math 2"
    by (rule Math_log_sign(2)) simp_all
  ultimately have "rnd (real_of_int sz / cap) * Math_log Math 2 \<le> 0"
    by (rule mult_nonpos_nonneg)
  then show ?thesis
    unfolding calculateSlices_def by (rule rnd_nonpos)
qed

lemma SafeBloomFilter_new_inv:
  assumes "SafeBloomFilter_new Math capacity_arg errorRate_arg buf = Inr s" and "0 \<le> capacity s"
  shows "BloomFilter_inv (filter' s)"
proof (cases "1 \<le> size' (filter' s)")
  case True
  then show ?thesis
    using SafeBloomFilter_new_fields(6) [OF assms(1)] by (simp add: BloomFilter_inv_def)
next
  case False
  then have "size' (filter' s) \<le> 0" by simp
  then have "calculateSlices Math (size' (filter' s)) (capacity s) \<le> 0"
    using assms(2) by (rule calculateSlices_nonpos)
  then have "slices (filter' s) \<le> 0"
    unfolding SafeBloomFilter_new_fields(5) [OF assms(1)] .
  then show ?thesis by (simp add: BloomFilter_inv_def)
qed

lemma BloomFilter_has_no_slices: "slices f \<le> 0 \<Longrightarrow> BloomFilter_has key f"
proof -
  assume "slices f \<le> 0"
  then have "\<lceil>slices f\<rceil> \<le> 0" by (simp add: ceiling_le_iff)
  then show ?thesis
    by (simp add: BloomFilter_has_def calulateHashes_eq)
qed

lemma SafeBloomFilter_new_capacity_0:
  assumes "SafeBloomFilter_new Math capacity_arg errorRate_arg buf = Inr s" and "capacity s = 0"
  shows "SafeBloomFilter_has key s"
proof -
  have "slices (filter' s) = 0"
    unfolding SafeBloomFilter_new_fields(5) [OF assms(1)] assms(2)
    by (simp add: calculateSlices_def)
  then show ?thesis
    by (simp add: SafeBloomFilter_has_def BloomFilter_has_no_slices)
qed

lemma double_Some: "double x = Some r \<Longrightarrow> r = rnd x"
  by (simp add: double_def Let_def split: if_splits)

lemma SafeBloomFilter_add_True:
  assumes "SafeBloomFilter_add key s = (True, s1)"
  shows "s1 = s\<lparr>filter' := BloomFilter_add key (filter' s), count := count s + 1\<rparr>"
    and "real (count s) < capacity s"
  using assms by (auto simp: SafeBloomFilter_add_def split: if_splits)

lemma SafeBloomFilter_add_False:
  assumes "SafeBloomFilter_add key s = (False, s1)"
  shows "s1 = s" and "capacity s \<le> real (count s)"
  using assms by (auto simp: SafeBloomFilter_add_def split: if_splits)

lemma SafeBloomFilter_add_capacity [simp]:
  "capacity (snd (SafeBloomFilter_add key s)) = capacity s"
  "errorRate (snd (SafeBloomFilter_add key s)) = errorRate s"
  by (simp_all add: SafeBloomFilter_add_def)

lemma SafeBloomFilter_add_inv:
  "BloomFilter_inv (filter' s) \<Longrightarrow> BloomFilter_inv (filter' (snd (SafeBloomFilter_add key s)))"
  by (simp add: SafeBloomFilter_add_def BloomFilter_inv_add)

lemma SafeBloomFilter_has_mono:
  "SafeBloomFilter_has key s \<Longrightarrow> SafeBloomFilter_has key (snd (SafeBloomFilter_add key' s))"
  by (simp add: SafeBloomFilter_add_def SafeBloomFilter_has_def BloomFilter_has_mono)

lemma SafeBloomFilter_has_adds:
  "SafeBloomFilter_has key s \<Longrightarrow> SafeBloomFilter_has key (snd (SafeBloomFilter_adds keys s))"
proof (induction keys arbitrary: s)
  case Nil
  then show ?case by simp
next
  case (Cons k ks)
  from Cons.prems have "SafeBloomFilter_has key (snd (SafeBloomFilter_add k s))"
    by (rule SafeBloomFilter_has_mono)
  from Cons.IH [OF this] show ?case
    by (simp add: split_beta)
qed

lemma SafeBloomFilter_has_add:
  assumes "BloomFilter_inv (filter' s)" and "SafeBloomFilter_add key s = (True, s1)"
  shows "SafeBloomFilter_has key s1"
  using assms
  by (simp add: SafeBloomFilter_add_True(1) [OF assms(2)] SafeBloomFilter_has_def
        BloomFilter_has_add)

section \<open>ScalingBloomFilter and the levels of an attenuated filter\<close>

lemma ScalingBloomFilter_has_iff:
  "ScalingBloomFilter_has key s \<longleftrightarrow> (\<exists>f \<in> set (filters s). SafeBloomFilter_has key f)"
proof -
  have "ScalingBloomFilter_has_loop key fs \<longleftrightarrow> (\<exists>f \<in> set fs. SafeBloomFilter_has key f)" for fs
    by (induction fs) auto
  then show ?thesis
    by (simp add: ScalingBloomFilter_has_def)
qed

lemma ScalingBloomFilter_add_cases:
  assumes "ScalingBloomFilter_add Math key s = Inr (r, s1)"
  obtains
    (accepted) "filters s \<noteq> []"
      "fst (SafeBloomFilter_add key (last (filters s)))"
      "r = Undefined"
      "s1 = s\<lparr>filters := butlast (filters s) @
                              [snd (SafeBloomFilter_add key (last (filters s)))]\<rparr>"
  | (grown) g where "filters s \<noteq> []"
      "\<not> fst (SafeBloomFilter_add key (last (filters s)))"
      "r = This"
      "SafeBloomFilter_new Math (Some (rnd (capacity (last (filters s)) * scaling s)))
         (Some (rnd (errorRate (last (filters s)) * ratio s))) None = Inr g"
      "s1 = s\<lparr>filters := filters s @ [snd (SafeBloomFilter_add key g)]\<rparr>"
proof -
  from assms have ne: "filters s \<noteq> []"
    by (auto simp: ScalingBloomFilter_add_def)
  obtain b f1 where add: "SafeBloomFilter_add key (last (filters s)) = (b, f1)"
    by (cases "SafeBloomFilter_add key (last (filters s))")
  show thesis
  proof (cases b)
    case True
    with assms ne add have "r = Undefined" "s1 = s\<lparr>filters := butlast (filters s) @ [f1]\<rparr>"
      by (auto simp: ScalingBloomFilter_add_def)
    with ne add True show thesis
      by (intro accepted) simp_all
  next
    case False
    with add have f1: "f1 = last (filters s)"
      by (simp add: SafeBloomFilter_add_False(1))
    from assms ne add False obtain g c e where
      c: "double (capacity f1 * scaling s) = Some c"
      and e: "double (errorRate f1 * ratio s) = Some e"
      and g0: "SafeBloomFilter_new Math (Some c) (Some e) None = Inr g"
      and r: "r = This"
      and s1: "s1 = s\<lparr>filters := butlast (filters s) @ [f1] @
                                     [snd (SafeBloomFilter_add key g)]\<rparr>"
      by (auto simp: ScalingBloomFilter_add_def split: sum.splits option.splits)
    from g0 double_Some [OF c] double_Some [OF e]
    have g: "SafeBloomFilter_new Math (Some (rnd (capacity f1 * scaling s)))
            (Some (rnd (errorRate f1 * ratio s))) None = Inr g"
      by simp
    from ne f1 have "butlast (filters s) @ [f1] = filters s" by simp
    with s1 have "s1 = s\<lparr>filters := filters s @ [snd (SafeBloomFilter_add key g)]\<rparr>"
      by simp
    with ne add False g r f1 show thesis
      by (intro grown [of g]) simp_all
  qed
qed

lemma ScalingBloomFilter_has_mono:
  assumes "ScalingBloomFilter_has key s" and "ScalingBloomFilter_add Math key' s = Inr (r, s1)"
  shows "ScalingBloomFilter_has key s1"
proof -
  from assms(1) obtain f where f: "f \<in> set (filters s)" "SafeBloomFilter_has key f"
    by (auto simp: ScalingBloomFilter_has_iff)
  from assms(2) show ?thesis
  proof (cases rule: ScalingBloomFilter_add_cases)
    case accepted
    from accepted(1) have "filters s = butlast (filters s) @ [last (filters s)]" by simp
    with f(1) have "f \<in> set (butlast (filters s)) \<or> f = last (filters s)"
      by (metis Un_iff empty_iff empty_set insert_iff list.simps(15) set_append)
    then show ?thesis
    proof
      assume "f \<in> set (butlast (filters s))"
      with f(2) accepted(4) show ?thesis
        by (auto simp: ScalingBloomFilter_has_iff)
    next
      assume "f = last (filters s)"
      with f(2) have "SafeBloomFilter_has key (snd (SafeBloomFilter_add key' (last (filters s))))"
        by (simp add: SafeBloomFilter_has_mono)
      with accepted(4) show ?thesis
        by (auto simp: ScalingBloomFilter_has_iff)
    qed
  next
    case (grown g)
    with f show ?thesis
      by (auto simp: ScalingBloomFilter_has_iff)
  qed
qed

lemma ScalingBloomFilter_has_adds:
  "ScalingBloomFilter_has key s \<Longrightarrow> ScalingBloomFilter_adds Math keys s = Inr s2 \<Longrightarrow>
   ScalingBloomFilter_has key s2"
proof (induction keys arbitrary: s)
  case Nil
  then show ?case by simp
next
  case (Cons k ks)
  from Cons.prems(2) obtain r s1 where
    add: "ScalingBloomFilter_add Math k s = Inr (r, s1)" and rest: "ScalingBloomFilter_adds Math ks s1 = Inr s2"
    by (auto split: sum.splits)
  from ScalingBloomFilter_has_mono [OF Cons.prems(1) add] rest show ?case
    by (rule Cons.IH)
qed

lemma ScalingBloomFilter_has_add:
  assumes "ScalingBloomFilter_inv s" and "ScalingBloomFilter_add Math key s = Inr (r, s1)"
  shows "ScalingBloomFilter_has key s1"
proof -
  from assms(1) have sc: "0 < scaling s"
    and fs: "\<forall>f \<in> set (filters s). 0 \<le> capacity f \<and> BloomFilter_inv (filter' f)"
    by (simp_all add: ScalingBloomFilter_inv_def)
  from assms(2) show ?thesis
  proof (cases rule: ScalingBloomFilter_add_cases)
    case accepted
    obtain f1 where add: "SafeBloomFilter_add key (last (filters s)) = (True, f1)"
      using accepted(2) by (cases "SafeBloomFilter_add key (last (filters s))") simp
    from accepted(1) fs have "BloomFilter_inv (filter' (last (filters s)))" by simp
    from SafeBloomFilter_has_add [OF this add] accepted(4) add show ?thesis
      by (simp add: ScalingBloomFilter_has_iff)
  next
    case (grown g)
    from grown(1) fs have "0 \<le> capacity (last (filters s))" by simp
    with sc have "0 \<le> capacity (last (filters s)) * scaling s" by simp
    then have "0 \<le> rnd (capacity (last (filters s)) * scaling s)"
      by (rule rnd_nonneg)
    then have cap: "0 \<le> capacity g"
      using SafeBloomFilter_new_fields(1) [OF grown(4)] by simp
    have cnt: "count g = 0" by (rule SafeBloomFilter_new_fields(3) [OF grown(4)])
    have "SafeBloomFilter_has key (snd (SafeBloomFilter_add key g))"
    proof (cases "capacity g = 0")
      case True
      with cnt have "SafeBloomFilter_add key g = (False, g)"
        by (simp add: SafeBloomFilter_add_def)
      with SafeBloomFilter_new_capacity_0 [OF grown(4) True] show ?thesis
        by simp
    next
      case False
      with cap cnt obtain g1 where add: "SafeBloomFilter_add key g = (True, g1)"
        by (simp add: SafeBloomFilter_add_def)
      from SafeBloomFilter_has_add [OF SafeBloomFilter_new_inv [OF grown(4) cap] add] add
      show ?thesis by simp
    qed
    with grown(5) show ?thesis
      by (simp add: ScalingBloomFilter_has_iff)
  qed
qed

lemma level_add_levels:
  assumes "level_add i key a = Inr a1"
  shows "i < length (levels a)"
    and "levels a1 = (levels a)[i := BloomFilter_add key (levels a ! i)]"
  using assms by (auto simp: level_add_def split: if_splits)

lemma level_add_has_mono:
  assumes "level_add j key' a = Inr a1" and "i < length (levels a)"
    and "BloomFilter_has key (levels a ! i)"
  shows "i < length (levels a1) \<and> BloomFilter_has key (levels a1 ! i)"
  using assms level_add_levels [OF assms(1)]
  by (auto simp: nth_list_update BloomFilter_has_mono)

lemma level_adds_has_mono:
  "level_adds iks a = Inr a2 \<Longrightarrow> i < length (levels a) \<Longrightarrow>
   BloomFilter_has key (levels a ! i) \<Longrightarrow> BloomFilter_has key (levels a2 ! i)"
proof (induction iks arbitrary: a)
  case Nil
  then show ?case by simp
next
  case (Cons p ps)
  obtain j k where p: "p = (j, k)" by (cases p)
  with Cons.prems(1) obtain a1 where
    a1: "level_add j k a = Inr a1" and rest: "level_adds ps a1 = Inr a2"
    by (auto split: sum.splits)
  from level_add_has_mono [OF a1 Cons.prems(2,3)] rest show ?case
    using Cons.IH by blast
qed

section \<open>The constructors establish the invariants\<close>

lemma ScalingBloomFilter_add_inv:
  assumes "ScalingBloomFilter_inv s" and "ScalingBloomFilter_add Math key s = Inr (r, s1)"
  shows "ScalingBloomFilter_inv s1"
proof -
  from assms(1) have sc: "0 < scaling s"
    and fs: "\<forall>f \<in> set (filters s). 0 \<le> capacity f \<and> BloomFilter_inv (filter' f)"
    by (simp_all add: ScalingBloomFilter_inv_def)
  from assms(2) show ?thesis
  proof (cases rule: ScalingBloomFilter_add_cases)
    case accepted
    from accepted(1) fs have l: "0 \<le> capacity (last (filters s))"
      "BloomFilter_inv (filter' (last (filters s)))" by simp_all
    have "set (butlast (filters s)) \<subseteq> set (filters s)"
      by (auto dest: in_set_butlastD)
    with fs l accepted(4) sc show ?thesis
      by (auto simp: ScalingBloomFilter_inv_def SafeBloomFilter_add_inv)
  next
    case (grown g)
    from grown(1) fs have "0 \<le> capacity (last (filters s))" by simp
    with sc have "0 \<le> capacity (last (filters s)) * scaling s" by simp
    then have "0 \<le> rnd (capacity (last (filters s)) * scaling s)"
      by (rule rnd_nonneg)
    then have cap: "0 \<le> capacity g"
      using SafeBloomFilter_new_fields(1) [OF grown(4)] by simp
    from SafeBloomFilter_new_inv [OF grown(4) cap] cap fs sc grown(5) show ?thesis
      by (auto simp: ScalingBloomFilter_inv_def SafeBloomFilter_add_inv)
  qed
qed

lemma ScalingBloomFilter_new_inv:
  assumes "ScalingBloomFilter_new Math errorRate_arg options = Inr s"
    and "0 < initialCapacity s" and "0 < scaling s"
  shows "ScalingBloomFilter_inv s"
proof -
  from assms(1) obtain f e where
    f: "SafeBloomFilter_new Math (Some (initialCapacity s)) (Some e) None = Inr f"
    and fs: "filters s = [f]"
    by (auto simp: ScalingBloomFilter_new_def Let_def split: sum.splits option.splits)
  from SafeBloomFilter_new_fields(1) [OF f] assms(2) have cap: "0 \<le> capacity f" by simp
  from SafeBloomFilter_new_inv [OF f cap] cap fs assms(3) show ?thesis
    by (simp add: ScalingBloomFilter_inv_def)
qed

lemma push_filters_levels:
  "push_filters bs n acc = Inr fs \<Longrightarrow>
   \<exists>new. fs = acc @ new \<and> length new = n \<and>
     (\<forall>f \<in> set new. size' f = int bs \<and> slices f = 2 \<and>
        int (length (buffer (bitfield f))) = - ((- int bs) div 8))"
proof (induction n arbitrary: acc)
  case 0
  then show ?case by simp
next
  case (Suc n)
  from Suc.prems obtain f where
    f: "BloomFilter_new (Some (int bs)) (Some 2) None = Inr f"
    and rest: "push_filters bs n (acc @ [f]) = Inr fs"
    by (auto split: sum.splits)
  from Suc.IH [OF rest] obtain new where
    new: "fs = (acc @ [f]) @ new" "length new = n"
      "\<forall>f \<in> set new. size' f = int bs \<and> slices f = 2 \<and>
         int (length (buffer (bitfield f))) = - ((- int bs) div 8)"
    by blast
  from BloomFilter_new_fields [OF f] new show ?case
    by (intro exI [of _ "f # new"]) simp
qed

lemma AttenuatedBloomFilter_new_levels:
  assumes "AttenuatedBloomFilter_new options = Inr a"
  shows "length (levels a) = filterDepth a"
    and "0 < bitfieldSize a" and "0 < filterDepth a"
    and "\<forall>f \<in> set (levels a). size' f = int (bitfieldSize a) \<and> slices f = 2 \<and> BloomFilter_inv f"
proof -
  let ?bs = "or_default (opt_bitfieldSize options) 160"
  let ?fd = "or_default (opt_filterDepth options) 3"
  from assms obtain fs where fs: "push_filters ?bs ?fd [] = Inr fs"
    and a: "a = \<lparr>bitfieldSize = ?bs, filterDepth = ?fd, levels = fs\<rparr>"
    by (auto simp: AttenuatedBloomFilter_new_def Let_def split: sum.splits)
  have pos: "0 < ?bs" "0 < ?fd"
    by (simp_all add: or_default_def split: option.splits)
  from push_filters_levels [OF fs] a pos
  show "length (levels a) = filterDepth a" "0 < bitfieldSize a" "0 < filterDepth a"
    "\<forall>f \<in> set (levels a). size' f = int (bitfieldSize a) \<and> slices f = 2 \<and> BloomFilter_inv f"
    by (auto simp: BloomFilter_inv_def)
qed

section \<open>Bounds on the natural logarithm of 2\<close>

lemma exp_upper_Taylor:
  fixes x :: real
  assumes "0 \<le> x" and "x \<le> 1"
  shows "exp x \<le> (\<Sum>m<n. x ^ m / fact m) + 3 * x ^ n / fact n"
proof -
  from Maclaurin_exp_le [of x n] obtain t where
    t: "\<bar>t\<bar> \<le> \<bar>x\<bar>" and e: "exp x = (\<Sum>m<n. x ^ m / fact m) + (exp t / fact n) * x ^ n"
    by blast
  from t assms have "t \<le> 1" by linarith
  then have "exp t \<le> exp 1" by simp
  with exp_le have "exp t \<le> 3" by linarith
  then have "exp t * x ^ n \<le> 3 * x ^ n"
    using assms(1) by (intro mult_right_mono) simp_all
  then have "(exp t / fact n) * x ^ n \<le> 3 * x ^ n / fact n"
    by (simp add: divide_right_mono)
  with e show ?thesis by linarith
qed

lemma exp_lower_Taylor:
  fixes x :: real
  assumes "0 \<le> x"
  shows "(\<Sum>m<n. x ^ m / fact m) \<le> exp x"
proof -
  from Maclaurin_exp_le [of x n] obtain t where
    e: "exp x = (\<Sum>m<n. x ^ m / fact m) + (exp t / fact n) * x ^ n"
    by blast
  have "0 \<le> (exp t / fact n) * x ^ n"
    using assms by simp
  with e show ?thesis by linarith
qed

lemma ln2_lower: "693147175 / 1000000000 < ln (2 :: real)"
proof -
  let ?q = "693147175 / 1000000000 :: real"
  have "exp ?q \<le> (\<Sum>m<12. ?q ^ m / fact m) + 3 * ?q ^ 12 / fact 12"
    by (rule exp_upper_Taylor) simp_all
  also have "\<dots> < 2"
    by (simp add: eval_nat_numeral sum.lessThan_Suc)
  finally have "exp ?q < exp (ln 2)" by simp
  then show ?thesis by (simp only: exp_less_cancel_iff)
qed

lemma ln2_upper: "ln (2 :: real) < 6931472 / 10000000"
proof -
  let ?u = "6931472 / 10000000 :: real"
  have "2 < (\<Sum>m<10. ?u ^ m / fact m)"
    by (simp add: eval_nat_numeral sum.lessThan_Suc)
  also have "\<dots> \<le> exp ?u"
    by (rule exp_lower_Taylor) simp
  finally have "exp (ln 2) < exp ?u" by simp
  then show ?thesis by (simp only: exp_less_cancel_iff)
qed

section \<open>The rounding error of the sizing functions\<close>

lemma Math_log_2:
  "ln 2 * (1 - 1 / 2 ^ 51) \<le> Math_log Math 2" "Math_log Math 2 \<le> ln 2 * (1 + 1 / 2 ^ 51)"
proof -
  define e where "e = ln (2 :: real) / 2 ^ 51"
  have "\<bar>ln (2 :: real)\<bar> = ln 2" by simp
  with Math_log_error [of 2 Math] have d: "\<bar>Math_log Math 2 - ln 2\<bar> \<le> e"
    by (simp add: e_def)
  have eq: "ln 2 * (1 - 1 / 2 ^ 51) = ln 2 - e" "ln 2 * (1 + 1 / 2 ^ 51) = ln 2 + e"
    by (simp_all add: algebra_simps e_def)
  from d have "ln 2 - e \<le> Math_log Math 2" "Math_log Math 2 \<le> ln 2 + e"
    by linarith+
  then show "ln 2 * (1 - 1 / 2 ^ 51) \<le> Math_log Math 2"
    "Math_log Math 2 \<le> ln 2 * (1 + 1 / 2 ^ 51)"
    by (simp_all only: eq)
qed

lemma div_step:
  fixes X v c :: real
  assumes "0 \<le> X" and "0 \<le> lo" and "lo * X \<le> v" and "v \<le> hi * X"
    and "0 < cl" and "cl \<le> c" and "c \<le> ch"
  shows "lo / ch * X \<le> v / c" and "v / c \<le> hi / cl * X"
proof -
  have "0 \<le> lo * X" using assms(1,2) by simp
  with assms(3) have v: "0 \<le> v" by linarith
  from assms(5,6,7) have c: "0 < c" "0 < ch" by linarith+
  have "lo * X / ch \<le> v / ch"
    using assms(3) c(2) by (intro divide_right_mono) simp_all
  also have "v / ch \<le> v / c"
    using v c assms(7) by (intro divide_left_mono) simp_all
  finally show "lo / ch * X \<le> v / c" by simp
  have "v / c \<le> v / cl"
    using v c assms(5,6) by (intro divide_left_mono) simp_all
  also have "v / cl \<le> hi * X / cl"
    using assms(4,5) by (intro divide_right_mono) simp_all
  finally show "v / c \<le> hi / cl * X" by simp
qed

lemma log2sq_bounds:
  "480453 / 1000000 * (1 - 1 / 2 ^ 53) \<le> rnd (480453 / 1000000)"
  "rnd (480453 / 1000000) \<le> 480453 / 1000000 * (1 + 1 / 2 ^ 53)"
  using rnd_between [of "480453 / 1000000" "480453 / 1000000" "480453 / 1000000"]
  by simp_all

lemma ln_pow2: "ln (1 / 2 ^ n :: real) = - (real n * ln 2)"
  by (simp add: ln_div ln_realpow)

lemma ln_tiny:
  fixes err :: real
  assumes "1 / 2 ^ 1074 \<le> err"
  shows "- ln err \<le> 745"
proof -
  have pos: "(0 :: real) < 1 / 2 ^ 1074" by simp
  have "ln (1 / 2 ^ 1074 :: real) = - (real 1074 * ln 2)"
    by (rule ln_pow2)
  moreover have "ln (1 / 2 ^ 1074) \<le> ln err"
    using assms pos by (intro ln_mono) linarith+
  moreover have "real 1074 * ln (2 :: real) \<le> 745"
    using ln2_upper by simp
  ultimately show ?thesis by linarith
qed

lemma ln_below_one:
  fixes err :: real
  assumes "0 < err" and "err \<le> 1 - 1 / 2 ^ 53"
  shows "1 / 2 ^ 53 \<le> - ln err"
proof -
  have "ln err \<le> ln (1 - 1 / 2 ^ 53)"
    using assms by (intro ln_mono) simp_all
  also have "\<dots> \<le> - (1 / 2 ^ 53)"
    by (rule ln_one_minus_pos_upper_bound) simp_all
  finally show ?thesis by simp
qed

lemma rounding_factors:
  "(1 - 1 / 2 ^ 50 :: real) \<le> (1 - 1 / 2 ^ 51) * (1 - 1 / 2 ^ 53) / (1 + 1 / 2 ^ 53) * (1 - 1 / 2 ^ 53)"
  "(1 + 1 / 2 ^ 51) * (1 + 1 / 2 ^ 53) / (1 - 1 / 2 ^ 53) * (1 + 1 / 2 ^ 53) \<le> (1 + 1 / 2 ^ 50 :: real)"
  "(1 - 1 / 2 ^ 50 :: real) \<le> (1 - 1 / 2 ^ 53) * (1 - 1 / 2 ^ 51) * (1 - 1 / 2 ^ 53)"
  "(1 + 1 / 2 ^ 53) * (1 + 1 / 2 ^ 51) * (1 + 1 / 2 ^ 53) \<le> (1 + 1 / 2 ^ 50 :: real)"
  by simp_all

lemma calculateSize_close:
  fixes cap err :: real
  assumes "1 \<le> cap" and "cap \<le> 2 ^ 1000" and "1 / 2 ^ 1074 \<le> err"
    and "err \<le> 1 - 1 / 2 ^ 53"
  shows "\<exists>d. calculateSize Math cap err = Some \<lceil>d\<rceil> \<and>
           cap * ln err / - (480453 / 1000000) * (1 - 1 / 2 ^ 50) \<le> d \<and>
           d \<le> cap * ln err / - (480453 / 1000000) * (1 + 1 / 2 ^ 50)"
proof -
  define y where "y = - ln err"
  define l where "l = - Math_log Math err"
  define X where "X = cap * y"
  define c :: real where "c = 480453 / 1000000"
  define c0 where "c0 = rnd (480453 / 1000000)"
  define x where "x = X / c"
  define v1 where "v1 = cap * l"
  define v2 where "v2 = rnd v1 / c0"
  have "(0 :: real) < 1 / 2 ^ 1074" by simp
  with assms(3) have pos: "0 < err" by linarith
  have y: "1 / 2 ^ 53 \<le> y" "y \<le> 745"
    unfolding y_def using ln_below_one [OF pos assms(4)] ln_tiny [OF assms(3)] by simp_all
  have "(0 :: real) < 1 / 2 ^ 53" by simp
  with y(1) have ypos: "0 < y" by linarith
  define e where "e = y / 2 ^ 51"
  have "\<bar>ln err\<bar> = y" using ypos by (simp add: y_def)
  with Math_log_error [OF pos, of Math] have "\<bar>- l - (- y)\<bar> \<le> e"
    by (simp add: l_def y_def e_def)
  then have "y - e \<le> l" "l \<le> y + e" by linarith+
  moreover have "(1 - 1 / 2 ^ 51) * y = y - e" "(1 + 1 / 2 ^ 51) * y = y + e"
    by (simp_all add: e_def algebra_simps)
  ultimately have l: "(1 - 1 / 2 ^ 51) * y \<le> l" "l \<le> (1 + 1 / 2 ^ 51) * y"
    by simp_all
  have cap0: "0 \<le> cap" using assms(1) by linarith
  have "1 * y \<le> cap * y"
    using assms(1) ypos by (intro mult_right_mono) simp_all
  then have "y \<le> X" by (simp add: X_def)
  with y(1) have X1: "1 / 2 ^ 53 \<le> X" by linarith
  have "cap * y \<le> 2 ^ 1000 * 745"
    using assms(2) y(2) cap0 ypos by (intro mult_mono) simp_all
  then have X2: "X \<le> 2 ^ 1000 * 745" by (simp add: X_def)
  from X1 \<open>(0 :: real) < 1 / 2 ^ 53\<close> have X0: "0 \<le> X" by linarith
  have "cap * ((1 - 1 / 2 ^ 51) * y) \<le> cap * l" "cap * l \<le> cap * ((1 + 1 / 2 ^ 51) * y)"
    by (rule mult_left_mono [OF l(1) cap0], rule mult_left_mono [OF l(2) cap0])
  then have v1: "(1 - 1 / 2 ^ 51) * X \<le> v1" "v1 \<le> (1 + 1 / 2 ^ 51) * X"
    by (simp_all add: v1_def X_def mult.left_commute mult.assoc)
  have "(1 - 1 / 2 ^ 51) * (1 / 2 ^ 53) \<le> (1 - 1 / 2 ^ 51) * X"
    using X1 by (intro mult_left_mono) simp_all
  moreover have "(1 / 2 ^ 1022 :: real) \<le> (1 - 1 / 2 ^ 51) * (1 / 2 ^ 53)" by simp
  ultimately have v1n: "1 / 2 ^ 1022 \<le> v1" using v1(1) by linarith
  have lo1: "(0 :: real) \<le> 1 - 1 / 2 ^ 51" by simp
  note r1 = rnd_step [OF X0 lo1 v1 v1n]
  have "0 \<le> (1 - 1 / 2 ^ 51) * (1 - 1 / 2 ^ 53) * X"
    using X0 by (intro mult_nonneg_nonneg) simp_all
  with r1(1) have r1pos: "0 \<le> rnd v1" by linarith
  have "(1 + 1 / 2 ^ 51) * (1 + 1 / 2 ^ 53) * X \<le>
        (1 + 1 / 2 ^ 51) * (1 + 1 / 2 ^ 53) * (2 ^ 1000 * 745)"
    using X2 by (intro mult_left_mono) simp_all
  moreover have "(1 + 1 / 2 ^ 51) * (1 + 1 / 2 ^ 53) * (2 ^ 1000 * 745) < (2 ^ 1024 :: real)"
    by simp
  ultimately have r1small: "rnd v1 < 2 ^ 1024" using r1(2) by linarith
  have "cap * Math_log Math err = - v1" by (simp add: v1_def l_def)
  then have p: "double (cap * Math_log Math err) = Some (- rnd v1)"
    using r1pos r1small by (simp add: double_def rnd_minus)
  have c0: "c * (1 - 1 / 2 ^ 53) \<le> c0" "c0 \<le> c * (1 + 1 / 2 ^ 53)"
    unfolding c_def c0_def by (rule log2sq_bounds)+
  have cl: "0 < c * (1 - 1 / 2 ^ 53)" by (simp add: c_def)
  have lo2: "(0 :: real) \<le> (1 - 1 / 2 ^ 51) * (1 - 1 / 2 ^ 53)" by simp
  note d2 = div_step [OF X0 lo2 r1 cl c0]
  have xX: "k / (c * m) * X = k / m * x" for k m :: real
    by (simp add: x_def c_def)
  from d2 have v2: "(1 - 1 / 2 ^ 51) * (1 - 1 / 2 ^ 53) / (1 + 1 / 2 ^ 53) * x \<le> v2"
    "v2 \<le> (1 + 1 / 2 ^ 51) * (1 + 1 / 2 ^ 53) / (1 - 1 / 2 ^ 53) * x"
    unfolding xX v2_def by simp_all
  have "(1 / 2 ^ 53) / c \<le> X / c"
    using X1 by (intro divide_right_mono) (simp_all add: c_def)
  then have x1: "1 / 2 ^ 53 / c \<le> x" by (simp add: x_def)
  have "X / c \<le> 2 ^ 1000 * 745 / c"
    using X2 by (intro divide_right_mono) (simp_all add: c_def)
  then have x2: "x \<le> 2 ^ 1000 * 745 / c" by (simp add: x_def)
  have x0: "0 \<le> x" using X0 by (simp add: x_def c_def)
  have "(1 - 1 / 2 ^ 51) * (1 - 1 / 2 ^ 53) / (1 + 1 / 2 ^ 53) * (1 / 2 ^ 53 / c) \<le>
        (1 - 1 / 2 ^ 51) * (1 - 1 / 2 ^ 53) / (1 + 1 / 2 ^ 53) * x"
    using x1 by (intro mult_left_mono) simp_all
  moreover have "(1 / 2 ^ 1022 :: real) \<le>
      (1 - 1 / 2 ^ 51) * (1 - 1 / 2 ^ 53) / (1 + 1 / 2 ^ 53) * (1 / 2 ^ 53 / c)"
    by (simp add: c_def)
  ultimately have v2n: "1 / 2 ^ 1022 \<le> v2" using v2(1) by linarith
  have lo3: "(0 :: real) \<le> (1 - 1 / 2 ^ 51) * (1 - 1 / 2 ^ 53) / (1 + 1 / 2 ^ 53)" by simp
  note r2 = rnd_step [OF x0 lo3 v2 v2n]
  have "(1 - 1 / 2 ^ 50) * x \<le>
      (1 - 1 / 2 ^ 51) * (1 - 1 / 2 ^ 53) / (1 + 1 / 2 ^ 53) * (1 - 1 / 2 ^ 53) * x"
    using x0 rounding_factors(1) by (rule mult_right_mono [rotated])
  with r2(1) have d1: "(1 - 1 / 2 ^ 50) * x \<le> rnd v2" by linarith
  have "(1 + 1 / 2 ^ 51) * (1 + 1 / 2 ^ 53) / (1 - 1 / 2 ^ 53) * (1 + 1 / 2 ^ 53) * x \<le>
      (1 + 1 / 2 ^ 50) * x"
    using x0 rounding_factors(2) by (rule mult_right_mono [rotated])
  with r2(2) have d2: "rnd v2 \<le> (1 + 1 / 2 ^ 50) * x" by linarith
  have "0 \<le> (1 - 1 / 2 ^ 50) * x"
    using x0 by (intro mult_nonneg_nonneg) simp_all
  with d1 have r2pos: "0 \<le> rnd v2" by linarith
  have "(1 + 1 / 2 ^ 50) * x \<le> (1 + 1 / 2 ^ 50) * (2 ^ 1000 * 745 / c)"
    using x2 by (intro mult_left_mono) simp_all
  moreover have "(1 + 1 / 2 ^ 50) * (2 ^ 1000 * 745 / c) < (2 ^ 1024 :: real)"
    by (simp add: c_def)
  ultimately have r2small: "rnd v2 < 2 ^ 1024" using d2 by linarith
  have "- rnd v1 / - c0 = v2" by (simp add: v2_def)
  then have q: "double (- rnd v1 / - c0) = Some (rnd v2)"
    using r2pos r2small by (simp add: double_def)
  have size: "calculateSize Math cap err = Some \<lceil>rnd v2\<rceil>"
    using pos p q by (simp add: calculateSize_def c0_def Let_def)
  have "x = cap * ln err / - (480453 / 1000000)"
    by (simp add: x_def X_def y_def c_def)
  with size d1 d2 show ?thesis
    by (intro exI [of _ "rnd v2"]) (simp add: mult.commute)
qed

lemma calculateSlices_close:
  fixes cap :: real and sz :: int
  assumes "1 \<le> cap" and "cap \<le> 2 ^ 1000" and "0 \<le> sz"
  shows "real_of_int sz / cap * ln 2 * (1 - 1 / 2 ^ 50) \<le> calculateSlices Math sz cap"
    and "calculateSlices Math sz cap \<le> real_of_int sz / cap * ln 2 * (1 + 1 / 2 ^ 50)"
proof -
  define q where "q = real_of_int sz / cap"
  define t where "t = q * ln 2"
  define v where "v = rnd q * Math_log Math 2"
  have goal: "t * (1 - 1 / 2 ^ 50) \<le> rnd v \<and> rnd v \<le> t * (1 + 1 / 2 ^ 50)"
  proof (cases "sz = 0")
    case True
    then show ?thesis by (simp add: v_def q_def t_def)
  next
    case False
    with assms(3) have "1 \<le> real_of_int sz" by linarith
    then have "1 / cap \<le> real_of_int sz / cap"
      using assms(1) by (intro divide_right_mono) simp_all
    moreover have "1 / 2 ^ 1000 \<le> 1 / cap"
      using assms(1,2) by (intro divide_left_mono) simp_all
    ultimately have q1: "1 / 2 ^ 1000 \<le> q" unfolding q_def by linarith
    have "(1 / 2 ^ 1022 :: real) \<le> 1 / 2 ^ 1000" by simp
    with q1 have qn: "1 / 2 ^ 1022 \<le> q" by linarith
    have "(0 :: real) < 1 / 2 ^ 1000" by simp
    with q1 have q0: "0 \<le> q" by linarith
    from rnd_between [OF qn, of q q]
    have rq: "q * (1 - 1 / 2 ^ 53) \<le> rnd q" "rnd q \<le> q * (1 + 1 / 2 ^ 53)" by simp_all
    have "0 \<le> q * (1 - 1 / 2 ^ 53)"
      using q0 by (intro mult_nonneg_nonneg) simp_all
    with rq(1) have rq0: "0 \<le> rnd q" by linarith
    have l2: "0 \<le> ln (2 :: real) * (1 - 1 / 2 ^ 51)" by simp
    have "q * (1 - 1 / 2 ^ 53) * (ln 2 * (1 - 1 / 2 ^ 51)) \<le> rnd q * Math_log Math 2"
      using rq(1) Math_log_2(1) [of Math] q0 l2
      by (intro mult_mono mult_nonneg_nonneg) simp_all
    then have v1: "(1 - 1 / 2 ^ 53) * (1 - 1 / 2 ^ 51) * t \<le> v"
      by (simp add: v_def t_def mult.assoc mult.left_commute mult.commute)
    have "0 \<le> Math_log Math 2"
      using Math_log_2(1) [of Math] l2 by linarith
    then have "rnd q * Math_log Math 2 \<le> q * (1 + 1 / 2 ^ 53) * (ln 2 * (1 + 1 / 2 ^ 51))"
      using rq(2) Math_log_2(2) [of Math] rq0
      by (intro mult_mono mult_nonneg_nonneg) simp_all
    then have v2: "v \<le> (1 + 1 / 2 ^ 53) * (1 + 1 / 2 ^ 51) * t"
      by (simp add: v_def t_def mult.assoc mult.left_commute mult.commute)
    have "1 / 2 ^ 1000 * (1 / 2) \<le> q * ln 2"
      using q1 ln2_lower by (intro mult_mono) simp_all
    then have t1: "1 / 2 ^ 1001 \<le> t" by (simp add: t_def)
    have "(0 :: real) < 1 / 2 ^ 1001" by simp
    with t1 have t0: "0 \<le> t" by linarith
    have "(1 - 1 / 2 ^ 53) * (1 - 1 / 2 ^ 51) * (1 / 2 ^ 1001) \<le>
          (1 - 1 / 2 ^ 53) * (1 - 1 / 2 ^ 51) * t"
      using t1 by (intro mult_left_mono) simp_all
    moreover have "(1 / 2 ^ 1022 :: real) \<le> (1 - 1 / 2 ^ 53) * (1 - 1 / 2 ^ 51) * (1 / 2 ^ 1001)"
      by simp
    ultimately have vn: "1 / 2 ^ 1022 \<le> v" using v1 by linarith
    have lo: "(0 :: real) \<le> (1 - 1 / 2 ^ 53) * (1 - 1 / 2 ^ 51)" by simp
    note r = rnd_step [OF t0 lo v1 v2 vn]
    have "(1 - 1 / 2 ^ 50) * t \<le> (1 - 1 / 2 ^ 53) * (1 - 1 / 2 ^ 51) * (1 - 1 / 2 ^ 53) * t"
      using t0 rounding_factors(3) by (rule mult_right_mono [rotated])
    moreover have "(1 + 1 / 2 ^ 53) * (1 + 1 / 2 ^ 51) * (1 + 1 / 2 ^ 53) * t \<le>
          (1 + 1 / 2 ^ 50) * t"
      using t0 rounding_factors(4) by (rule mult_right_mono [rotated])
    ultimately have "(1 - 1 / 2 ^ 50) * t \<le> rnd v" "rnd v \<le> (1 + 1 / 2 ^ 50) * t"
      using r by linarith+
    then show ?thesis by (simp add: mult.commute)
  qed
  have "calculateSlices Math sz cap = rnd v"
    by (simp add: calculateSlices_def v_def q_def)
  with goal show "real_of_int sz / cap * ln 2 * (1 - 1 / 2 ^ 50) \<le> calculateSlices Math sz cap"
    and "calculateSlices Math sz cap \<le> real_of_int sz / cap * ln 2 * (1 + 1 / 2 ^ 50)"
    by (simp_all add: t_def q_def)
qed

lemma ln_half: "ln (1 / 2 :: real) = - ln 2"
  by (simp add: ln_div)

lemma calculateSize_2_half: "calculateSize Math 2 (1 / 2) = Some 3"
proof -
  have "\<exists>d :: real. calculateSize Math 2 (1 / 2) = Some \<lceil>d\<rceil> \<and>
      2 * ln (1 / 2) / - (480453 / 1000000) * (1 - 1 / 2 ^ 50) \<le> d \<and>
      d \<le> 2 * ln (1 / 2) / - (480453 / 1000000) * (1 + 1 / 2 ^ 50)"
    by (rule calculateSize_close) simp_all
  then obtain d :: real where
    d: "calculateSize Math 2 (1 / 2) = Some \<lceil>d\<rceil>"
      "2 * ln (1 / 2) / - (480453 / 1000000) * (1 - 1 / 2 ^ 50) \<le> d"
      "d \<le> 2 * ln (1 / 2) / - (480453 / 1000000) * (1 + 1 / 2 ^ 50)"
    by blast
  have "(2 :: real) < 2 * ln (1 / 2) / - (480453 / 1000000) * (1 - 1 / 2 ^ 50)"
    unfolding ln_half using ln2_lower by (simp add: field_simps)
  moreover have "2 * ln (1 / 2) / - (480453 / 1000000) * (1 + 1 / 2 ^ 50) \<le> (3 :: real)"
    unfolding ln_half using ln2_upper by (simp add: field_simps)
  ultimately have "\<lceil>d\<rceil> = 3"
    using d(2,3) by (simp add: ceiling_eq_iff)
  with d(1) show ?thesis by simp
qed

lemma calculateSlices_3_2: "\<lceil>calculateSlices Math 3 2\<rceil> = 2"
proof -
  have "(1 :: real) < real_of_int 3 / 2 * ln 2 * (1 - 1 / 2 ^ 50)"
    using ln2_lower by (simp add: field_simps)
  moreover have "real_of_int 3 / 2 * ln 2 * (1 + 1 / 2 ^ 50) \<le> (2 :: real)"
    using ln2_upper by (simp add: field_simps)
  ultimately show ?thesis
    using calculateSlices_close [of 2 3 Math] by (simp add: ceiling_eq_iff)
qed

section \<open>The derived indices as a formula\<close>

lemma fnv_concat:
  "fnv (Buf seed) key = ToUint32 (value' (update (Buf (seed @ bytes_of key)) FNV_new))"
  by (simp add: fnv_def update_def value'_def js_ushr_def ToUint32_def)

lemma nth_calulateHashes:
  "i < n \<Longrightarrow>
   calulateHashes key sz (real n) ! i =
     js_rem (Num (js_add (fnv (Buf (utf8 ''S'')) key)
                    (js_mul (int i) (fnv (Buf (utf8 ''W'')) key)))) sz"
  by (simp add: calulateHashes_eq del: js_rem.simps)

lemma js_rem_nonneg: "0 \<le> a \<Longrightarrow> 1 \<le> sz \<Longrightarrow> js_rem (Num a) sz = Num (a mod sz)"
  by (simp add: sgn_if)

lemma index_exact:
  assumes "0 \<le> h1" "0 \<le> h2" "h1 + int i * h2 < 2 ^ 53" "1 \<le> sz"
  shows "js_rem (Num (js_add h1 (js_mul (int i) h2))) sz = Num ((h1 + int i * h2) mod sz)"
proof -
  have p: "0 \<le> int i * h2" using assms(2) by simp
  with assms(1,3) have "\<bar>int i * h2\<bar> < 2 ^ 53" by linarith
  then have m: "js_mul (int i) h2 = int i * h2"
    by (simp only: js_mul_def round53_exact)
  from p assms(1,3) have "\<bar>h1 + int i * h2\<bar> < 2 ^ 53" by linarith
  then have a: "js_add h1 (int i * h2) = h1 + int i * h2"
    by (simp only: js_add_def round53_exact)
  from p assms(1) have "0 \<le> h1 + int i * h2" by simp
  then show ?thesis
    unfolding m a using assms(4) by (rule js_rem_nonneg)
qed

lemma small_index_below_2_53:
  assumes "0 \<le> h1" "h1 < 2 ^ 32" "0 \<le> h2" "h2 < 2 ^ 32" "i < 2 ^ 21"
  shows "h1 + int i * (h2 :: int) < 2 ^ 53"
proof -
  from assms(5) have "int i < int (2 ^ 21)"
    by (simp only: of_nat_less_iff)
  then have i: "int i \<le> 2097151" by simp
  from assms(4) have h2: "h2 \<le> 4294967295" by simp
  from assms(2) have h1: "h1 \<le> 4294967295" by simp
  have "int i * h2 \<le> 2097151 * 4294967295"
    using i h2 assms(3) by (intro mult_mono) simp_all
  with h1 have "h1 + int i * h2 \<le> 9007199252643840" by linarith
  then show ?thesis by simp
qed

lemma fnv_bar: "fnv (Buf (utf8 ''S'')) (Str ''bar'') = 3862027667"
  "fnv (Buf (utf8 ''W'')) (Str ''bar'') = 3419762479"
  by code_simp code_simp

lemma index_bar: "js_rem (Num (js_add 3862027667 (js_mul 2633866 3419762479))) 16 = Num 8"
  by code_simp

section \<open>Hex strings\<close>

lemma hex_digits_decode: "list_all (\<lambda>n. hex_val (hex_digit n) = Some n) [0..<16]"
  by code_simp

lemma hex_val_hex_digit: "n < 16 \<Longrightarrow> hex_val (hex_digit n) = Some n"
  using hex_digits_decode by (simp add: list_all_iff)

lemma from_hex_hex_byte: "from_hex (hex_byte b @ rest) = b # from_hex rest"
proof -
  have "unat b div 16 < 16"
    using unsigned_less [of b, where 'a = nat] by simp
  moreover have "unat b mod 16 < 16" by simp
  moreover have "(of_nat (16 * (unat b div 16) + unat b mod 16) :: byte) = b"
    by simp
  ultimately show ?thesis
    by (simp add: hex_byte_def hex_val_hex_digit)
qed

lemma from_hex_toString_hex: "from_hex (toString_hex b) = b"
  by (induction b) (simp_all add: toString_hex_def from_hex_hex_byte)

section \<open>Reconstruction from a snapshot\<close>

lemma BloomFilter_destringify_id:
  "0 \<le> - ((- size' f) div 8) \<Longrightarrow> BloomFilter_destringify f = Inr f"
  by (simp add: BloomFilter_destringify_def BloomFilter_new_def Bitfield_new_def
      Buffer_alloc_def Let_def)

lemma BloomFilter_adds_size [simp]: "size' (BloomFilter_adds keys f) = size' f"
  unfolding BloomFilter_adds_def by (induction keys arbitrary: f) simp_all

lemma BloomFilter_new_bytes:
  "BloomFilter_new size_arg slices_arg buf = Inr f \<Longrightarrow> 0 \<le> - ((- size' f) div 8)"
  using BloomFilter_new_fields(3) [of size_arg slices_arg buf f] by linarith

lemma SafeBloomFilter_destringify_id:
  assumes "SafeBloomFilter_consistent Math s"
  shows "SafeBloomFilter_destringify Math s = Inr s"
proof -
  from assms have sz: "calculateSize Math (capacity s) (errorRate s) = Some (size' (filter' s))"
    and sl: "slices (filter' s) = calculateSlices Math (size' (filter' s)) (capacity s)"
    and nb: "0 \<le> - ((- size' (filter' s)) div 8)"
    by (simp_all add: SafeBloomFilter_consistent_def)
  have "SafeBloomFilter_new Math (Some (capacity s)) (Some (errorRate s)) None =
      Inr \<lparr>capacity = capacity s, errorRate = errorRate s, count = 0,
           filter' = \<lparr>size' = size' (filter' s), slices = slices (filter' s),
             bitfield = \<lparr>buffer = replicate (nat (- ((- size' (filter' s)) div 8))) 0\<rparr>\<rparr>\<rparr>"
    using nb by (simp add: SafeBloomFilter_new_def sz sl [symmetric] BloomFilter_new_def
        Bitfield_new_def Buffer_alloc_def Let_def)
  then show ?thesis
    by (simp add: SafeBloomFilter_destringify_def)
qed

lemma SafeBloomFilter_new_consistent:
  assumes "SafeBloomFilter_new Math capacity_arg errorRate_arg buf = Inr s"
  shows "SafeBloomFilter_consistent Math s"
proof -
  from SafeBloomFilter_new_fields(6) [OF assms] have "0 \<le> - ((- size' (filter' s)) div 8)"
    by linarith
  with SafeBloomFilter_new_fields(4,5) [OF assms] show ?thesis
    by (simp add: SafeBloomFilter_consistent_def)
qed

lemma SafeBloomFilter_add_consistent:
  "SafeBloomFilter_consistent Math s \<Longrightarrow> SafeBloomFilter_consistent Math (snd (SafeBloomFilter_add key s))"
  by (simp add: SafeBloomFilter_consistent_def SafeBloomFilter_add_def)

lemma SafeBloomFilter_adds_consistent:
  "SafeBloomFilter_consistent Math s \<Longrightarrow> SafeBloomFilter_consistent Math (snd (SafeBloomFilter_adds keys s))"
proof (induction keys arbitrary: s)
  case Nil
  then show ?case by simp
next
  case (Cons k ks)
  from Cons.prems have "SafeBloomFilter_consistent Math (snd (SafeBloomFilter_add k s))"
    by (rule SafeBloomFilter_add_consistent)
  from Cons.IH [OF this] show ?case
    by (simp add: split_beta)
qed

lemma or_default_Some: "v \<noteq> 0 \<Longrightarrow> or_default (Some v) d = v"
  by (simp add: or_default_def)

lemma or_default_nonzero: "d \<noteq> 0 \<Longrightarrow> or_default x d \<noteq> 0"
  by (simp add: or_default_def split: option.splits)

lemma rnd_09_nonzero: "rnd 0.9 \<noteq> 0"
  using rnd_between(1) [of "9 / 10" "9 / 10" "9 / 10"] by simp

lemma ScalingBloomFilter_new_fields:
  assumes "ScalingBloomFilter_new Math errorRate_arg options = Inr s"
  shows "errorRate' s = (case errorRate_arg of None \<Rightarrow> rnd 0.1 | Some e \<Rightarrow> e)"
    and "ratio s = or_default (opt_ratio options) (rnd 0.9)"
    and "scaling s = or_default (opt_scaling options) 2"
    and "initialCapacity s = or_default (opt_initialCapacity options) 1000"
    and "ratio s \<noteq> 0" and "scaling s \<noteq> 0" and "initialCapacity s \<noteq> 0"
    and "\<exists>f e. SafeBloomFilter_new Math (Some (initialCapacity s)) (Some e) None = Inr f \<and>
           filters s = [f]"
  using assms
  by (auto simp: ScalingBloomFilter_new_def Let_def or_default_nonzero rnd_09_nonzero
      split: sum.splits option.splits)

lemma ScalingBloomFilter_new_again:
  assumes "ScalingBloomFilter_new Math errorRate_arg options = Inr s"
  shows "ScalingBloomFilter_new Math (Some (errorRate' s))
           \<lparr>opt_ratio = Some (ratio s), opt_scaling = Some (scaling s),
            opt_initialCapacity = Some (initialCapacity s)\<rparr> = Inr s"
proof -
  note f = ScalingBloomFilter_new_fields [OF assms]
  have "ScalingBloomFilter_new Math (Some (errorRate' s))
           \<lparr>opt_ratio = Some (ratio s), opt_scaling = Some (scaling s),
            opt_initialCapacity = Some (initialCapacity s)\<rparr> =
        ScalingBloomFilter_new Math errorRate_arg options"
    unfolding ScalingBloomFilter_new_def
    by (simp add: or_default_Some f(5,6,7) f(1-4) [symmetric])
  with assms show ?thesis by simp
qed

lemma ScalingBloomFilter_new_consistent:
  assumes "ScalingBloomFilter_new Math errorRate_arg options = Inr s"
  shows "ScalingBloomFilter_consistent Math s"
proof -
  note f = ScalingBloomFilter_new_fields [OF assms]
  from f(8) obtain g e where
    g: "SafeBloomFilter_new Math (Some (initialCapacity s)) (Some e) None = Inr g"
    and fs: "filters s = [g]"
    by blast
  from SafeBloomFilter_new_consistent [OF g] fs f(5,6,7) ScalingBloomFilter_new_again [OF assms]
  show ?thesis
    by (simp add: ScalingBloomFilter_consistent_def)
qed

lemma ScalingBloomFilter_add_fields:
  assumes "ScalingBloomFilter_add Math key s = Inr (r, s1)"
  shows "errorRate' s1 = errorRate' s" "ratio s1 = ratio s" "scaling s1 = scaling s"
    "initialCapacity s1 = initialCapacity s"
  using assms by (cases rule: ScalingBloomFilter_add_cases; simp)+

lemma ScalingBloomFilter_add_consistent:
  assumes "ScalingBloomFilter_consistent Math s" and "ScalingBloomFilter_add Math key s = Inr (r, s1)"
  shows "ScalingBloomFilter_consistent Math s1"
proof -
  from assms(1) have fs: "\<forall>f \<in> set (filters s). SafeBloomFilter_consistent Math f"
    by (simp add: ScalingBloomFilter_consistent_def)
  have "\<forall>f \<in> set (filters s1). SafeBloomFilter_consistent Math f"
    using assms(2)
  proof (cases rule: ScalingBloomFilter_add_cases)
    case accepted
    from accepted(1) fs have "SafeBloomFilter_consistent Math (last (filters s))" by simp
    then have "SafeBloomFilter_consistent Math (snd (SafeBloomFilter_add key (last (filters s))))"
      by (rule SafeBloomFilter_add_consistent)
    with fs accepted(4) show ?thesis
      by (auto dest: in_set_butlastD)
  next
    case (grown g)
    from SafeBloomFilter_new_consistent [OF grown(4)]
    have "SafeBloomFilter_consistent Math (snd (SafeBloomFilter_add key g))"
      by (rule SafeBloomFilter_add_consistent)
    with fs grown(5) show ?thesis by auto
  qed
  with assms(1) ScalingBloomFilter_add_fields [OF assms(2)] show ?thesis
    by (simp add: ScalingBloomFilter_consistent_def)
qed

lemma ScalingBloomFilter_adds_consistent:
  "ScalingBloomFilter_consistent Math s \<Longrightarrow> ScalingBloomFilter_adds Math keys s = Inr s2 \<Longrightarrow>
   ScalingBloomFilter_consistent Math s2"
proof (induction keys arbitrary: s)
  case Nil
  then show ?case by simp
next
  case (Cons k ks)
  from Cons.prems(2) obtain r s1 where
    add: "ScalingBloomFilter_add Math k s = Inr (r, s1)" and rest: "ScalingBloomFilter_adds Math ks s1 = Inr s2"
    by (auto split: sum.splits)
  from ScalingBloomFilter_add_consistent [OF Cons.prems(1) add] rest show ?case
    by (rule Cons.IH)
qed

lemma destringify_filters_id:
  "\<forall>f \<in> set ds. SafeBloomFilter_consistent Math f \<Longrightarrow> destringify_filters Math ds acc = Inr (acc @ ds)"
  by (induction ds arbitrary: acc) (simp_all add: SafeBloomFilter_destringify_id)

lemma ScalingBloomFilter_destringify_id:
  assumes "ScalingBloomFilter_consistent Math s"
  shows "ScalingBloomFilter_destringify Math s = Inr s"
proof -
  let ?new = "ScalingBloomFilter_new Math (Some (errorRate' s))
      \<lparr>opt_ratio = Some (ratio s), opt_scaling = Some (scaling s),
       opt_initialCapacity = Some (initialCapacity s)\<rparr>"
  from assms have nz: "ratio s \<noteq> 0" "scaling s \<noteq> 0" "initialCapacity s \<noteq> 0"
    and fs: "\<forall>f \<in> set (filters s). SafeBloomFilter_consistent Math f"
    and "\<not> isl ?new"
    by (simp_all add: ScalingBloomFilter_consistent_def)
  then obtain s' where new: "?new = Inr s'"
    by (cases ?new) simp_all
  from ScalingBloomFilter_new_fields(1-4) [OF new] nz
  have "errorRate' s' = errorRate' s" "ratio s' = ratio s" "scaling s' = scaling s"
    "initialCapacity s' = initialCapacity s"
    by (simp_all add: or_default_Some)
  then have "s'\<lparr>filters := filters s\<rparr> = s"
    by (intro ScalingBloomFilter.equality) simp_all
  with new destringify_filters_id [OF fs, of "[]"] show ?thesis
    by (simp add: ScalingBloomFilter_destringify_def)
qed

section \<open>Attenuated filters and their hex snapshots\<close>

lemma BloomFilter_new_fresh:
  "BloomFilter_new (Some (int bs)) (Some 2) None =
     Inr \<lparr>size' = int bs, slices = 2,
          bitfield = \<lparr>buffer = replicate (nat (- ((- int bs) div 8))) 0\<rparr>\<rparr>"
proof -
  have "0 \<le> - ((- int bs) div 8)" by linarith
  then show ?thesis
    by (simp add: BloomFilter_new_def Bitfield_new_def Buffer_alloc_def Let_def)
qed

lemma push_filters_fresh:
  "push_filters bs n acc =
     Inr (acc @ replicate n \<lparr>size' = int bs, slices = 2,
            bitfield = \<lparr>buffer = replicate (nat (- ((- int bs) div 8))) 0\<rparr>\<rparr>)"
  by (induction n arbitrary: acc)
    (simp_all add: BloomFilter_new_fresh replicate_app_Cons_same)

lemma AttenuatedBloomFilter_new_inv:
  assumes "AttenuatedBloomFilter_new options = Inr a"
  shows "AttenuatedBloomFilter_inv a"
proof -
  have "0 < or_default (opt_bitfieldSize options) 160"
    "0 < or_default (opt_filterDepth options) 3"
    by (simp_all add: or_default_def split: option.splits)
  with assms show ?thesis
    by (auto simp: AttenuatedBloomFilter_new_def AttenuatedBloomFilter_inv_def
        push_filters_fresh Let_def)
qed

lemma level_add_inv:
  assumes "AttenuatedBloomFilter_inv a" and "level_add i key a = Inr a1"
  shows "AttenuatedBloomFilter_inv a1"
proof -
  from level_add_levels [OF assms(2)]
  have i: "i < length (levels a)"
    and ls: "levels a1 = (levels a)[i := BloomFilter_add key (levels a ! i)]"
    by simp_all
  from assms(2) have same: "bitfieldSize a1 = bitfieldSize a" "filterDepth a1 = filterDepth a"
    by (auto simp: level_add_def split: if_splits)
  from i assms(1) have "size' (levels a ! i) = int (bitfieldSize a) \<and> slices (levels a ! i) = 2 \<and>
      int (length (buffer (bitfield (levels a ! i)))) = - ((- int (bitfieldSize a)) div 8)"
    by (simp add: AttenuatedBloomFilter_inv_def)
  with assms(1) ls same show ?thesis
    by (auto simp: AttenuatedBloomFilter_inv_def dest!: set_update_subset_insert [THEN subsetD])
qed

lemma level_adds_inv:
  "AttenuatedBloomFilter_inv a \<Longrightarrow> level_adds iks a = Inr a2 \<Longrightarrow> AttenuatedBloomFilter_inv a2"
proof (induction iks arbitrary: a)
  case Nil
  then show ?case by simp
next
  case (Cons p ps)
  obtain j k where p: "p = (j, k)" by (cases p)
  with Cons.prems(2) obtain a1 where
    a1: "level_add j k a = Inr a1" and rest: "level_adds ps a1 = Inr a2"
    by (auto split: sum.splits)
  from level_add_inv [OF Cons.prems(1) a1] rest show ?case
    by (rule Cons.IH)
qed

lemma assign_buffers_fresh:
  "assign_buffers (replicate (length ls) fresh)
     (map (\<lambda>bloomFilter. toString_hex (toBuffer (bitfield bloomFilter))) ls) =
   Inr (map (\<lambda>l. fresh\<lparr>bitfield := (bitfield fresh)\<lparr>buffer := buffer (bitfield l)\<rparr>\<rparr>) ls)"
  by (induction ls) (simp_all add: from_hex_toString_hex toBuffer_def)

lemma AttenuatedBloomFilter_from_toHexArray:
  assumes inv: "AttenuatedBloomFilter_inv a" and dvd: "8 dvd bitfieldSize a"
  shows "AttenuatedBloomFilter_from (toHexArray a) = Inr a"
proof -
  let ?bs = "bitfieldSize a"
  let ?fresh = "\<lparr>size' = int ?bs, slices = 2,
    bitfield = \<lparr>buffer = replicate (nat (- ((- int ?bs) div 8))) 0\<rparr>\<rparr>"
  from inv have bs: "0 < ?bs" and fd: "0 < filterDepth a"
    and len: "length (levels a) = filterDepth a"
    and lv: "\<forall>f \<in> set (levels a). size' f = int ?bs \<and> slices f = 2 \<and>
      int (length (buffer (bitfield f))) = - ((- int ?bs) div 8)"
    by (simp_all add: AttenuatedBloomFilter_inv_def)
  from fd len obtain l0 rest where ls: "levels a = l0 # rest"
    by (cases "levels a") auto
  from dvd obtain m where m: "?bs = 8 * m" by (auto simp: dvd_def)
  from lv ls have "int (length (buffer (bitfield l0))) = - ((- int ?bs) div 8)" by simp
  with m have "length (buffer (bitfield l0)) * 8 = ?bs" by simp
  then have first: "length (from_hex (toString_hex (toBuffer (bitfield l0)))) * 8 = ?bs"
    by (simp add: from_hex_toString_hex toBuffer_def)
  have new: "AttenuatedBloomFilter_new
      \<lparr>opt_bitfieldSize = Some ?bs, opt_filterDepth = Some (length (levels a))\<rparr> =
      Inr \<lparr>bitfieldSize = ?bs, filterDepth = length (levels a),
           levels = replicate (length (levels a)) ?fresh\<rparr>"
    using bs fd len
    by (simp add: AttenuatedBloomFilter_new_def or_default_Some push_filters_fresh Let_def)
  have "map (\<lambda>l. ?fresh\<lparr>bitfield := (bitfield ?fresh)\<lparr>buffer := buffer (bitfield l)\<rparr>\<rparr>)
      (levels a) = levels a"
    using lv by (intro map_idI) simp
  with assign_buffers_fresh [of "levels a" ?fresh]
  have assign: "assign_buffers (replicate (length (levels a)) ?fresh)
      (map (\<lambda>bloomFilter. toString_hex (toBuffer (bitfield bloomFilter))) (levels a)) =
      Inr (levels a)"
    by simp
  have hex: "toHexArray a = toString_hex (toBuffer (bitfield l0)) #
      map (\<lambda>bloomFilter. toString_hex (toBuffer (bitfield bloomFilter))) rest"
    by (simp add: toHexArray_def ls)
  have "length (toHexArray a) = length (levels a)"
    by (simp add: toHexArray_def)
  with first new assign len show ?thesis
    unfolding AttenuatedBloomFilter_from_def
    by (simp add: hex) (simp add: toHexArray_def [symmetric] hex [symmetric] ls [symmetric])
qed

section \<open>The outcome of merge\<close>

lemma length_merge_loop:
  "length (fst (merge_loop i loc foreignFilters)) = length loc"
  by (induction i loc foreignFilters rule: merge_loop.induct)
    (subst merge_loop.simps, simp add: Let_def)

lemma merge_loop_level0:
  "fst (merge_loop i loc foreignFilters) ! 0 = loc ! 0"
  by (induction i loc foreignFilters rule: merge_loop.induct)
    (subst merge_loop.simps, simp add: Let_def)

lemma merge_loop_returns:
  "length loc \<le> length foreignFilters + 1 \<Longrightarrow> snd (merge_loop i loc foreignFilters) = None"
  by (induction i loc foreignFilters rule: merge_loop.induct)
    (subst merge_loop.simps, auto simp: Let_def)

lemma merge_loop_throws:
  "length foreignFilters + 1 < length loc \<Longrightarrow> i \<le> length foreignFilters + 1 \<Longrightarrow>
   snd (merge_loop i loc foreignFilters) = Some TypeError"
proof (induction i loc foreignFilters rule: merge_loop.induct)
  case (1 localIndex loc foreignFilters)
  from "1.prems" have ne: "loc \<noteq> []" and lt: "localIndex < length loc" by auto
  show ?case
  proof (cases "localIndex = 0")
    case True
    with "1.IH"(1) "1.prems" lt show ?thesis
      by (subst merge_loop.simps) simp
  next
    case False
    show ?thesis
    proof (cases "localIndex - 1 < length foreignFilters")
      case True
      with False "1.IH"(2) "1.prems" lt show ?thesis
        by (subst merge_loop.simps) (simp add: Let_def)
    next
      case nomore: False
      with False lt show ?thesis
        by (subst merge_loop.simps) simp
    qed
  qed
qed

lemma AttenuatedBloomFilter_merge_outcome:
  "snd (AttenuatedBloomFilter_merge a peer) =
     (if length (levels peer) + 1 < length (levels a) then Some TypeError else None)"
  "levels (fst (AttenuatedBloomFilter_merge a peer)) ! 0 = levels a ! 0"
  using merge_loop_throws [of "levels peer" "levels a" 0]
    merge_loop_returns [of "levels a" "levels peer" 0]
    merge_loop_level0 [of 0 "levels a" "levels peer"]
  by (auto simp: AttenuatedBloomFilter_merge_def split_beta)

section \<open>The hash function on literal inputs\<close>

text \<open>
  C8.  The FNV digest, as a hex string, is \<open>811c9dc5\<close> for the empty input,
  \<open>bf9cf968\<close> for the bytes of "foobar" and \<open>e40c292c\<close> for the bytes of "a"; two
  \<open>update\<close> calls with "foo" and then "bar" give the digest of one call with "foobar".
\<close>

theorem fnv_hash_vectors:
  "digest_hex (update (Buf []) FNV_new) = ''811c9dc5'' \<and>
   digest_hex (update (Buf (utf8 ''foobar'')) FNV_new) = ''bf9cf968'' \<and>
   digest_hex (update (Buf (utf8 ''a'')) FNV_new) = ''e40c292c'' \<and>
   digest_hex (update (Buf (utf8 ''bar'')) (update (Buf (utf8 ''foo'')) FNV_new)) =
     digest_hex (update (Buf (utf8 ''foobar'')) FNV_new)"
  by code_simp

section \<open>Merging attenuated filters\<close>

text \<open>
  C4.  Two fresh attenuated filters \<open>A\<close> and \<open>B\<close> of the default depth 3 and size 160
  each get "foo" at level 0, "bar" at level 1 and "baz" at level 2.  Then \<open>A.merge(B)\<close>
  returns without an error and leaves level 0 of \<open>A\<close> as it was; level 0 has "foo" and
  not "bar", level 1 has "foo" and not "baz", level 2 has "bar" and not "foo".
\<close>

theorem merge_semantics:
  "(case AttenuatedBloomFilter_new \<lparr>opt_bitfieldSize = None, opt_filterDepth = None\<rparr> of
      Inl e \<Rightarrow> False
    | Inr fresh \<Rightarrow>
        (case level_adds [(0, Str ''foo''), (1, Str ''bar''), (2, Str ''baz'')] fresh of
           Inl e \<Rightarrow> False
         | Inr A \<Rightarrow>
             (case level_adds [(0, Str ''foo''), (1, Str ''bar''), (2, Str ''baz'')] fresh of
                Inl e \<Rightarrow> False
              | Inr B \<Rightarrow>
                  (case AttenuatedBloomFilter_merge A B of
                     (A', err) \<Rightarrow>
                       err = None \<and>
                       levels A' ! 0 = levels A ! 0 \<and>
                       BloomFilter_has (Str ''foo'') (levels A' ! 0) \<and>
                       \<not> BloomFilter_has (Str ''bar'') (levels A' ! 0) \<and>
                       BloomFilter_has (Str ''foo'') (levels A' ! 1) \<and>
                       \<not> BloomFilter_has (Str ''baz'') (levels A' ! 1) \<and>
                       BloomFilter_has (Str ''bar'') (levels A' ! 2) \<and>
                       \<not> BloomFilter_has (Str ''foo'') (levels A' ! 2)))))"
  by code_simp

text \<open>
  C7.  A local filter of depth 3 merges a peer of depth 1: at local index 2 the peer has
  no level 1, and \<open>merge\<close> throws a \<open>TypeError\<close> instead of returning.  In general
  (\<open>AttenuatedBloomFilter_merge_outcome\<close>) \<open>merge\<close> throws exactly when the peer has at
  least two levels fewer than the local filter, and level 0 is never modified.
\<close>

theorem merge_short_peer_throws:
  "(case AttenuatedBloomFilter_new \<lparr>opt_bitfieldSize = None, opt_filterDepth = Some 3\<rparr> of
      Inl e \<Rightarrow> False
    | Inr local \<Rightarrow>
        (case AttenuatedBloomFilter_new \<lparr>opt_bitfieldSize = None, opt_filterDepth = Some 1\<rparr> of
           Inl e \<Rightarrow> False
         | Inr peer \<Rightarrow> snd (AttenuatedBloomFilter_merge local peer) = Some TypeError))"
  by code_simp

section \<open>No false negatives\<close>

text \<open>
  C1.  No false negatives.  After \<open>add(key)\<close>, \<open>has(key)\<close> is true, at once and
  after any further \<open>add\<close> calls \<open>keys\<close>: for a well-formed \<open>BloomFilter\<close>; for a
  \<open>SafeBloomFilter\<close> over a well-formed filter when its \<open>add\<close> returns true; for a
  well-formed \<open>ScalingBloomFilter\<close> when the \<open>add\<close> calls return; and for a level
  \<open>i\<close> of an attenuated filter, when the later calls \<open>iks\<close> add keys to any levels.
  The constructors establish the invariants (\<open>BloomFilter_new_inv\<close>,
  \<open>SafeBloomFilter_new_inv\<close>, \<open>ScalingBloomFilter_new_inv\<close>,
  \<open>AttenuatedBloomFilter_new_levels\<close>) and \<open>add\<close> keeps them.
\<close>

theorem no_false_negatives:
  "(BloomFilter_inv f \<longrightarrow>
      BloomFilter_has key (BloomFilter_adds keys (BloomFilter_add key f))) \<and>
   (BloomFilter_inv (filter' s) \<longrightarrow> SafeBloomFilter_add key s = (True, s1) \<longrightarrow>
      SafeBloomFilter_has key (snd (SafeBloomFilter_adds keys s1))) \<and>
   (ScalingBloomFilter_inv sc \<longrightarrow> ScalingBloomFilter_add Math key sc = Inr (r, sc1) \<longrightarrow>
      ScalingBloomFilter_adds Math keys sc1 = Inr sc2 \<longrightarrow>
      ScalingBloomFilter_has key sc2) \<and>
   (BloomFilter_inv (levels a ! i) \<longrightarrow> level_add i key a = Inr a1 \<longrightarrow>
      level_adds iks a1 = Inr a2 \<longrightarrow>
      BloomFilter_has key (levels a2 ! i))"
proof (intro conjI impI)
  assume "BloomFilter_inv f"
  then show "BloomFilter_has key (BloomFilter_adds keys (BloomFilter_add key f))"
    by (simp add: BloomFilter_has_add BloomFilter_has_adds)
next
  assume "BloomFilter_inv (filter' s)" and "SafeBloomFilter_add key s = (True, s1)"
  then have "SafeBloomFilter_has key s1"
    by (rule SafeBloomFilter_has_add)
  then show "SafeBloomFilter_has key (snd (SafeBloomFilter_adds keys s1))"
    by (rule SafeBloomFilter_has_adds)
next
  assume "ScalingBloomFilter_inv sc" and "ScalingBloomFilter_add Math key sc = Inr (r, sc1)"
  then have "ScalingBloomFilter_has key sc1"
    by (rule ScalingBloomFilter_has_add)
  moreover assume "ScalingBloomFilter_adds Math keys sc1 = Inr sc2"
  ultimately show "ScalingBloomFilter_has key sc2"
    by (rule ScalingBloomFilter_has_adds)
next
  assume inv: "BloomFilter_inv (levels a ! i)" and a1: "level_add i key a = Inr a1"
    and a2: "level_adds iks a1 = Inr a2"
  from level_add_levels [OF a1] inv
  have "i < length (levels a1)" "BloomFilter_has key (levels a1 ! i)"
    by (simp_all add: BloomFilter_has_add)
  with a2 show "BloomFilter_has key (levels a2 ! i)"
    by (rule level_adds_has_mono)
qed

theorem no_false_negatives_witness:
  "\<forall>Math.
   let f = \<lparr>size' = 8, slices = 2, bitfield = \<lparr>buffer = [0]\<rparr>\<rparr>;
       s = \<lparr>capacity = 2, errorRate = 1 / 2, count = 0, filter' = f\<rparr>;
       s1 = \<lparr>capacity = 2, errorRate = 1 / 2, count = 1,
             filter' = BloomFilter_add (Str ''foo'') f\<rparr>;
       sc = \<lparr>errorRate' = 1 / 10, ratio = 9 / 10, scaling = 2, initialCapacity = 2,
             filters = [s]\<rparr>;
       sc1 = \<lparr>errorRate' = 1 / 10, ratio = 9 / 10, scaling = 2, initialCapacity = 2,
              filters = [s1]\<rparr>;
       sc2 = \<lparr>errorRate' = 1 / 10, ratio = 9 / 10, scaling = 2, initialCapacity = 2,
              filters = [\<lparr>capacity = 2, errorRate = 1 / 2, count = 2,
                filter' = BloomFilter_add (Str ''bar'') (BloomFilter_add (Str ''foo'') f)\<rparr>]\<rparr>;
       a = \<lparr>bitfieldSize = 8, filterDepth = 1, levels = [f]\<rparr>;
       a1 = \<lparr>bitfieldSize = 8, filterDepth = 1, levels = [BloomFilter_add (Str ''foo'') f]\<rparr>
   in BloomFilter_inv f \<and>
      BloomFilter_has (Str ''foo'')
        (BloomFilter_adds [Str ''bar''] (BloomFilter_add (Str ''foo'') f)) \<and>
      SafeBloomFilter_add (Str ''foo'') s = (True, s1) \<and>
      SafeBloomFilter_has (Str ''foo'') (snd (SafeBloomFilter_adds [Str ''bar''] s1)) \<and>
      ScalingBloomFilter_inv sc \<and>
      ScalingBloomFilter_add Math (Str ''foo'') sc = Inr (Undefined, sc1) \<and>
      ScalingBloomFilter_adds Math [Str ''bar''] sc1 = Inr sc2 \<and>
      ScalingBloomFilter_has (Str ''foo'') sc2 \<and>
      level_add 0 (Str ''foo'') a = Inr a1 \<and>
      level_adds [(0, Str ''bar'')] a1 =
        Inr \<lparr>bitfieldSize = 8, filterDepth = 1,
             levels = [BloomFilter_add (Str ''bar'') (BloomFilter_add (Str ''foo'') f)]\<rparr> \<and>
      BloomFilter_has (Str ''foo'')
        (BloomFilter_add (Str ''bar'') (BloomFilter_add (Str ''foo'') f))"
proof
  fix Math
  define f where "f = \<lparr>size' = 8, slices = 2, bitfield = \<lparr>buffer = [0]\<rparr>\<rparr>"
  define s where "s = \<lparr>capacity = 2, errorRate = 1 / 2, count = 0, filter' = f\<rparr>"
  define s1 where "s1 = \<lparr>capacity = 2, errorRate = 1 / 2, count = 1,
    filter' = BloomFilter_add (Str ''foo'') f\<rparr>"
  define sc where "sc = \<lparr>errorRate' = 1 / 10, ratio = 9 / 10, scaling = 2,
    initialCapacity = 2, filters = [s]\<rparr>"
  define sc1 where "sc1 = \<lparr>errorRate' = 1 / 10, ratio = 9 / 10, scaling = 2,
    initialCapacity = 2, filters = [s1]\<rparr>"
  define sc2 where "sc2 = \<lparr>errorRate' = 1 / 10, ratio = 9 / 10, scaling = 2,
    initialCapacity = 2, filters = [\<lparr>capacity = 2, errorRate = 1 / 2, count = 2,
      filter' = BloomFilter_add (Str ''bar'') (BloomFilter_add (Str ''foo'') f)\<rparr>]\<rparr>"
  define a where "a = \<lparr>bitfieldSize = 8, filterDepth = 1, levels = [f]\<rparr>"
  define a1 where "a1 = \<lparr>bitfieldSize = 8, filterDepth = 1,
    levels = [BloomFilter_add (Str ''foo'') f]\<rparr>"
  define a2 where "a2 = \<lparr>bitfieldSize = 8, filterDepth = 1,
    levels = [BloomFilter_add (Str ''bar'') (BloomFilter_add (Str ''foo'') f)]\<rparr>"
  have f: "BloomFilter_inv f"
    by (simp add: f_def BloomFilter_inv_def)
  have s: "BloomFilter_inv (filter' s)" "SafeBloomFilter_add (Str ''foo'') s = (True, s1)"
    using f by (simp_all add: s_def s1_def SafeBloomFilter_add_def)
  have sc: "ScalingBloomFilter_inv sc"
    "ScalingBloomFilter_add Math (Str ''foo'') sc = Inr (Undefined, sc1)"
    "ScalingBloomFilter_adds Math [Str ''bar''] sc1 = Inr sc2"
    using s by (simp_all add: sc_def sc1_def sc2_def ScalingBloomFilter_inv_def
        ScalingBloomFilter_add_def SafeBloomFilter_add_def s_def s1_def)
  have a: "BloomFilter_inv (levels a ! 0)" "level_add 0 (Str ''foo'') a = Inr a1"
    "level_adds [(0, Str ''bar'')] a1 = Inr a2"
    using f by (simp_all add: a_def a1_def a2_def level_add_def)
  have "levels a2 ! 0 = BloomFilter_add (Str ''bar'') (BloomFilter_add (Str ''foo'') f)"
    by (simp add: a2_def)
  with no_false_negatives [of f "Str ''foo''" "[Str ''bar'']" s s1 sc Math Undefined sc1 sc2
      a 0 a1 "[(0, Str ''bar'')]" a2] f s sc a
  show "let f = \<lparr>size' = 8, slices = 2, bitfield = \<lparr>buffer = [0]\<rparr>\<rparr>;
       s = \<lparr>capacity = 2, errorRate = 1 / 2, count = 0, filter' = f\<rparr>;
       s1 = \<lparr>capacity = 2, errorRate = 1 / 2, count = 1,
             filter' = BloomFilter_add (Str ''foo'') f\<rparr>;
       sc = \<lparr>errorRate' = 1 / 10, ratio = 9 / 10, scaling = 2, initialCapacity = 2,
             filters = [s]\<rparr>;
       sc1 = \<lparr>errorRate' = 1 / 10, ratio = 9 / 10, scaling = 2, initialCapacity = 2,
              filters = [s1]\<rparr>;
       sc2 = \<lparr>errorRate' = 1 / 10, ratio = 9 / 10, scaling = 2, initialCapacity = 2,
              filters = [\<lparr>capacity = 2, errorRate = 1 / 2, count = 2,
                filter' = BloomFilter_add (Str ''bar'') (BloomFilter_add (Str ''foo'') f)\<rparr>]\<rparr>;
       a = \<lparr>bitfieldSize = 8, filterDepth = 1, levels = [f]\<rparr>;
       a1 = \<lparr>bitfieldSize = 8, filterDepth = 1, levels = [BloomFilter_add (Str ''foo'') f]\<rparr>
   in BloomFilter_inv f \<and>
      BloomFilter_has (Str ''foo'')
        (BloomFilter_adds [Str ''bar''] (BloomFilter_add (Str ''foo'') f)) \<and>
      SafeBloomFilter_add (Str ''foo'') s = (True, s1) \<and>
      SafeBloomFilter_has (Str ''foo'') (snd (SafeBloomFilter_adds [Str ''bar''] s1)) \<and>
      ScalingBloomFilter_inv sc \<and>
      ScalingBloomFilter_add Math (Str ''foo'') sc = Inr (Undefined, sc1) \<and>
      ScalingBloomFilter_adds Math [Str ''bar''] sc1 = Inr sc2 \<and>
      ScalingBloomFilter_has (Str ''foo'') sc2 \<and>
      level_add 0 (Str ''foo'') a = Inr a1 \<and>
      level_adds [(0, Str ''bar'')] a1 =
        Inr \<lparr>bitfieldSize = 8, filterDepth = 1,
             levels = [BloomFilter_add (Str ''bar'') (BloomFilter_add (Str ''foo'') f)]\<rparr> \<and>
      BloomFilter_has (Str ''foo'')
        (BloomFilter_add (Str ''bar'') (BloomFilter_add (Str ''foo'') f))"
    unfolding Let_def f_def [symmetric] s_def [symmetric] s1_def [symmetric]
      sc_def [symmetric] sc1_def [symmetric] sc2_def [symmetric] a_def [symmetric] a1_def [symmetric]
      a2_def [symmetric]
    by simp
qed

section \<open>The sizing formulas\<close>

text \<open>
  C6, as stated, fails, whatever the implementation of \<open>Math.log\<close>: for capacity
  \<open>10 ^ 8\<close> and error rate \<open>1 / 2\<close> the source's constant \<open>0.480453\<close> gives a
  size above 144269506 bits, and the exact square of \<open>ln 2\<close> gives a size of at most
  144269506 bits.
\<close>

theorem calculateSize_exact_square_counterexample:
  "\<forall>Math. calculateSize Math 100000000 (1 / 2) \<noteq>
     Some \<lceil>100000000 * ln (1 / 2 :: real) / - (ln 2)\<^sup>2\<rceil>"
proof
  fix Math
  define y where "y = \<lceil>100000000 * ln (1 / 2 :: real) / - (ln 2)\<^sup>2\<rceil>"
  have "\<exists>d :: real. calculateSize Math 100000000 (1 / 2) = Some \<lceil>d\<rceil> \<and>
      100000000 * ln (1 / 2) / - (480453 / 1000000) * (1 - 1 / 2 ^ 50) \<le> d \<and>
      d \<le> 100000000 * ln (1 / 2) / - (480453 / 1000000) * (1 + 1 / 2 ^ 50)"
    by (rule calculateSize_close) simp_all
  then obtain d :: real where
    d: "calculateSize Math 100000000 (1 / 2) = Some \<lceil>d\<rceil>"
      "100000000 * ln (1 / 2) / - (480453 / 1000000) * (1 - 1 / 2 ^ 50) \<le> d"
    by blast
  have "(144269506 :: real) <
      100000000 * ln (1 / 2) / - (480453 / 1000000) * (1 - 1 / 2 ^ 50)"
    unfolding ln_half using ln2_lower by (simp add: field_simps)
  with d(2) have "144269506 < d" by linarith
  then have "144269506 < \<lceil>d\<rceil>"
    by (simp add: less_ceiling_iff)
  moreover have B: "100000000 * ln (1 / 2 :: real) / - (ln 2)\<^sup>2 = 100000000 / ln 2"
    by (simp add: ln_half power2_eq_square)
  have "100000000 / ln (2 :: real) \<le> 144269506"
    using ln2_lower by (simp add: field_simps)
  then have "y \<le> 144269506"
    unfolding y_def B by (simp only: ceiling_le_iff)
  ultimately have "\<lceil>d\<rceil> \<noteq> y" by linarith
  with d(1) show "calculateSize Math 100000000 (1 / 2) \<noteq>
     Some \<lceil>100000000 * ln (1 / 2 :: real) / - (ln 2)\<^sup>2\<rceil>"
    unfolding y_def [symmetric] by simp
qed

text \<open>
  C6, amended.  The functions compute in double precision, with the six-digit constant
  of the source.  For a capacity between 1 and \<open>2 ^ 1000\<close> and an error rate between
  the least positive double \<open>2 ^ - 1074\<close> and the greatest double below 1,
  \<open>calculateSize\<close> is the ceiling of a number \<open>d\<close> within a relative error of
  \<open>2 ^ - 50\<close> of \<open>capacity * ln errorRate / - 0.480453\<close>: it lies between the
  ceilings of that quotient diminished and augmented by \<open>2 ^ - 50\<close> of itself, and is
  never below the ceiling taken with the exact square of \<open>ln 2\<close>.  For a size
  between 0 and \<open>2 ^ 1000\<close>, \<open>calculateSlices\<close> is within a relative error of
  \<open>2 ^ - 50\<close> of \<open>size / capacity * ln 2\<close>.
\<close>

theorem sizing_formulas:
  "1 \<le> cap \<longrightarrow> cap \<le> 2 ^ 1000 \<longrightarrow> 1 / 2 ^ 1074 \<le> err \<longrightarrow> err \<le> 1 - 1 / 2 ^ 53 \<longrightarrow>
   0 \<le> sz \<longrightarrow> sz \<le> 2 ^ 1000 \<longrightarrow>
     (\<exists>n d. calculateSize Math cap err = Some n \<and> n = \<lceil>d\<rceil> \<and>
        \<bar>d - cap * ln err / - 0.480453\<bar> \<le> cap * ln err / - 0.480453 / 2 ^ 50 \<and>
        \<lceil>cap * ln err / - 0.480453 * (1 - 1 / 2 ^ 50)\<rceil> \<le> n \<and>
        n \<le> \<lceil>cap * ln err / - 0.480453 * (1 + 1 / 2 ^ 50)\<rceil> \<and>
        \<lceil>cap * ln err / - (ln 2)\<^sup>2\<rceil> \<le> n) \<and>
     \<bar>calculateSlices Math sz cap - real_of_int sz / cap * ln 2\<bar> \<le>
       real_of_int sz / cap * ln 2 / 2 ^ 50"
proof (intro impI conjI)
  assume c: "1 \<le> cap" "cap \<le> 2 ^ 1000" and e: "1 / 2 ^ 1074 \<le> err" "err \<le> 1 - 1 / 2 ^ 53"
    and z: "0 \<le> sz"
  define x where "x = cap * ln err / - 0.480453"
  from calculateSize_close [OF c e, of Math] obtain d where
    d: "calculateSize Math cap err = Some \<lceil>d\<rceil>" "x * (1 - 1 / 2 ^ 50) \<le> d"
      "d \<le> x * (1 + 1 / 2 ^ 50)"
    unfolding x_def by auto
  have "(0 :: real) < 1 / 2 ^ 1074" by simp
  with e(1) have pos: "0 < err" by linarith
  from e(2) have "err < 1"
    by (rule order_le_less_trans) simp
  with pos have "ln err < 0" by simp
  with c(1) have neg: "cap * ln err \<le> 0"
    by (simp add: mult_le_0_iff)
  then have x0: "0 \<le> x"
    by (simp add: x_def divide_nonpos_neg)
  have eq: "x * (1 - 1 / 2 ^ 50) = x - x / 2 ^ 50" "x * (1 + 1 / 2 ^ 50) = x + x / 2 ^ 50"
    by (simp_all add: algebra_simps)
  from d(2,3) have close: "\<bar>d - x\<bar> \<le> x / 2 ^ 50"
    unfolding eq by linarith
  have lower: "\<lceil>x * (1 - 1 / 2 ^ 50)\<rceil> \<le> \<lceil>d\<rceil>" and upper: "\<lceil>d\<rceil> \<le> \<lceil>x * (1 + 1 / 2 ^ 50)\<rceil>"
    using d(2,3) by (simp_all add: ceiling_mono)
  have "(480453 / 1000000 :: real) < (693147175 / 1000000000)\<^sup>2 * (1 - 1 / 2 ^ 50)"
    by (simp add: power2_eq_square)
  also have "\<dots> \<le> (ln 2)\<^sup>2 * (1 - 1 / 2 ^ 50)"
    using ln2_lower by (intro mult_right_mono power_mono) simp_all
  finally have k: "(480453 / 1000000 :: real) \<le> (ln 2)\<^sup>2 * (1 - 1 / 2 ^ 50)" by simp
  have "- (cap * ln err) / (ln 2)\<^sup>2 \<le>
        - (cap * ln err) * (1 - 1 / 2 ^ 50) / ((ln 2)\<^sup>2 * (1 - 1 / 2 ^ 50))"
    by simp
  also have "\<dots> \<le> - (cap * ln err) * (1 - 1 / 2 ^ 50) / (480453 / 1000000)"
    using neg k by (intro divide_left_mono mult_nonneg_nonneg mult_pos_pos) simp_all
  also have "\<dots> = x * (1 - 1 / 2 ^ 50)"
    by (simp add: x_def)
  finally have "- (cap * ln err) / (ln 2)\<^sup>2 \<le> x * (1 - 1 / 2 ^ 50)" .
  with d(2) have "- (cap * ln err) / (ln 2)\<^sup>2 \<le> d" by linarith
  then have "cap * ln err / - (ln 2)\<^sup>2 \<le> d" by simp
  then have square: "\<lceil>cap * ln err / - (ln 2)\<^sup>2\<rceil> \<le> \<lceil>d\<rceil>"
    by (rule ceiling_mono)
  from d(1) close lower upper square
  show "\<exists>n d. calculateSize Math cap err = Some n \<and> n = \<lceil>d\<rceil> \<and>
        \<bar>d - cap * ln err / - 0.480453\<bar> \<le> cap * ln err / - 0.480453 / 2 ^ 50 \<and>
        \<lceil>cap * ln err / - 0.480453 * (1 - 1 / 2 ^ 50)\<rceil> \<le> n \<and>
        n \<le> \<lceil>cap * ln err / - 0.480453 * (1 + 1 / 2 ^ 50)\<rceil> \<and>
        \<lceil>cap * ln err / - (ln 2)\<^sup>2\<rceil> \<le> n"
    unfolding x_def [symmetric] by blast
  define t where "t = real_of_int sz / cap * ln 2"
  have teq: "t * (1 - 1 / 2 ^ 50) = t - t / 2 ^ 50" "t * (1 + 1 / 2 ^ 50) = t + t / 2 ^ 50"
    by (simp_all add: algebra_simps)
  from calculateSlices_close [OF c z, of Math]
  have "t - t / 2 ^ 50 \<le> calculateSlices Math sz cap"
    "calculateSlices Math sz cap \<le> t + t / 2 ^ 50"
    unfolding t_def [symmetric] teq by simp_all
  then have "\<bar>calculateSlices Math sz cap - t\<bar> \<le> t / 2 ^ 50"
    by linarith
  then show "\<bar>calculateSlices Math sz cap - real_of_int sz / cap * ln 2\<bar> \<le>
       real_of_int sz / cap * ln 2 / 2 ^ 50"
    by (simp only: t_def)
qed

theorem sizing_formulas_witness:
  "\<forall>Math. (1 :: real) \<le> 2 \<and> (2 :: real) \<le> 2 ^ 1000 \<and> (1 / 2 ^ 1074 :: real) \<le> 1 / 2 \<and>
     (1 / 2 :: real) \<le> 1 - 1 / 2 ^ 53 \<and> (0 :: int) \<le> 3 \<and> (3 :: int) \<le> 2 ^ 1000 \<and>
     calculateSize Math 2 (1 / 2) = Some 3 \<and>
     \<lceil>2 * ln (1 / 2 :: real) / - 0.480453 * (1 - 1 / 2 ^ 50)\<rceil> \<le> 3 \<and>
     3 \<le> \<lceil>2 * ln (1 / 2 :: real) / - 0.480453 * (1 + 1 / 2 ^ 50)\<rceil> \<and>
     \<lceil>2 * ln (1 / 2 :: real) / - (ln 2)\<^sup>2\<rceil> \<le> 3 \<and>
     \<bar>calculateSlices Math 3 2 - real_of_int 3 / 2 * ln 2\<bar> \<le> real_of_int 3 / 2 * ln 2 / 2 ^ 50"
proof
  fix Math
  have h: "(1 :: real) \<le> 2" "(2 :: real) \<le> 2 ^ 1000" "(1 / 2 ^ 1074 :: real) \<le> 1 / 2"
    "(1 / 2 :: real) \<le> 1 - 1 / 2 ^ 53" "(0 :: int) \<le> 3" "(3 :: int) \<le> 2 ^ 1000"
    by simp_all
  from sizing_formulas [of 2 "1 / 2" 3 Math] h obtain n where
    n: "calculateSize Math 2 (1 / 2) = Some n"
      "\<lceil>2 * ln (1 / 2 :: real) / - 0.480453 * (1 - 1 / 2 ^ 50)\<rceil> \<le> n"
      "n \<le> \<lceil>2 * ln (1 / 2 :: real) / - 0.480453 * (1 + 1 / 2 ^ 50)\<rceil>"
      "\<lceil>2 * ln (1 / 2 :: real) / - (ln 2)\<^sup>2\<rceil> \<le> n"
    and sl: "\<bar>calculateSlices Math 3 2 - real_of_int 3 / 2 * ln 2\<bar> \<le>
      real_of_int 3 / 2 * ln 2 / 2 ^ 50"
    by blast
  from n(1) have "n = 3"
    by (simp add: calculateSize_2_half)
  with n sl h show "(1 :: real) \<le> 2 \<and> (2 :: real) \<le> 2 ^ 1000 \<and> (1 / 2 ^ 1074 :: real) \<le> 1 / 2 \<and>
     (1 / 2 :: real) \<le> 1 - 1 / 2 ^ 53 \<and> (0 :: int) \<le> 3 \<and> (3 :: int) \<le> 2 ^ 1000 \<and>
     calculateSize Math 2 (1 / 2) = Some 3 \<and>
     \<lceil>2 * ln (1 / 2 :: real) / - 0.480453 * (1 - 1 / 2 ^ 50)\<rceil> \<le> 3 \<and>
     3 \<le> \<lceil>2 * ln (1 / 2 :: real) / - 0.480453 * (1 + 1 / 2 ^ 50)\<rceil> \<and>
     \<lceil>2 * ln (1 / 2 :: real) / - (ln 2)\<^sup>2\<rceil> \<le> 3 \<and>
     \<bar>calculateSlices Math 3 2 - real_of_int 3 / 2 * ln 2\<bar> \<le> real_of_int 3 / 2 * ln 2 / 2 ^ 50"
    by blast
qed

section \<open>Capacity enforcement\<close>

lemma SafeBloomFilter_adds_results:
  "capacity s = real C \<Longrightarrow>
   fst (SafeBloomFilter_adds keys s) = map (\<lambda>j. count s + j < C) [0..<length keys]"
proof (induction keys arbitrary: s)
  case Nil
  then show ?case by simp
next
  case (Cons k ks)
  let ?s1 = "snd (SafeBloomFilter_add k s)"
  have cap: "capacity ?s1 = real C"
    using Cons.prems by simp
  have cnt: "count ?s1 = (if count s < C then count s + 1 else count s)"
    and res: "fst (SafeBloomFilter_add k s) = (count s < C)"
    using Cons.prems by (auto simp: SafeBloomFilter_add_def)
  have "fst (SafeBloomFilter_adds (k # ks) s) =
          fst (SafeBloomFilter_add k s) # fst (SafeBloomFilter_adds ks ?s1)"
    by (simp add: split_beta)
  also have "\<dots> = (count s < C) # map (\<lambda>j. count ?s1 + j < C) [0..<length ks]"
    using Cons.IH [OF cap] res by simp
  also have "map (\<lambda>j. count ?s1 + j < C) [0..<length ks] =
             map (\<lambda>j. count s + Suc j < C) [0..<length ks]"
    using cnt by auto
  finally show ?case
    by (simp add: map_upt_Suc del: upt_Suc)
qed

text \<open>
  C2.  A \<open>SafeBloomFilter\<close> whose count has reached its capacity rejects \<open>add\<close>: the
  call returns false and the filter is unchanged.  Below capacity \<open>add\<close> returns true,
  adds the key to the owned \<open>BloomFilter\<close> and increments the count.  So on a filter
  constructed with capacity \<open>C\<close>, call number \<open>j\<close> (from 0) of any sequence of \<open>add\<close>
  calls returns true exactly when \<open>j < C\<close>: the first \<open>C\<close> calls return true, the next
  one false.
\<close>

theorem capacity_enforcement:
  "(capacity s \<le> real (count s) \<longrightarrow> SafeBloomFilter_add key s = (False, s)) \<and>
   (real (count s) < capacity s \<longrightarrow>
      SafeBloomFilter_add key s =
        (True, s\<lparr>filter' := BloomFilter_add key (filter' s), count := count s + 1\<rparr>)) \<and>
   (SafeBloomFilter_new Math (Some (real C)) errorRate_arg buf = Inr s0 \<longrightarrow>
      fst (SafeBloomFilter_adds keys s0) = map (\<lambda>j. j < C) [0..<length keys])"
proof (intro conjI impI)
  assume "capacity s \<le> real (count s)"
  then show "SafeBloomFilter_add key s = (False, s)"
    by (simp add: SafeBloomFilter_add_def)
next
  assume "real (count s) < capacity s"
  then show "SafeBloomFilter_add key s =
      (True, s\<lparr>filter' := BloomFilter_add key (filter' s), count := count s + 1\<rparr>)"
    by (simp add: SafeBloomFilter_add_def)
next
  assume new: "SafeBloomFilter_new Math (Some (real C)) errorRate_arg buf = Inr s0"
  from SafeBloomFilter_new_fields(1,3) [OF new]
  have "capacity s0 = real C" "count s0 = 0" by simp_all
  with SafeBloomFilter_adds_results [of s0 C keys]
  show "fst (SafeBloomFilter_adds keys s0) = map (\<lambda>j. j < C) [0..<length keys]"
    by simp
qed

lemma SafeBloomFilter_new_2_half:
  "SafeBloomFilter_new Math (Some 2) (Some (1 / 2)) None =
     Inr \<lparr>capacity = 2, errorRate = 1 / 2, count = 0,
          filter' = \<lparr>size' = 3, slices = calculateSlices Math 3 2, bitfield = \<lparr>buffer = [0]\<rparr>\<rparr>\<rparr>"
  by (simp add: SafeBloomFilter_new_def calculateSize_2_half BloomFilter_new_def
      Bitfield_new_def Buffer_alloc_def)

theorem capacity_enforcement_witness:
  "\<forall>Math.
   let s0 = \<lparr>capacity = 2, errorRate = 1 / 2, count = 0,
             filter' = \<lparr>size' = 3, slices = calculateSlices Math 3 2,
               bitfield = \<lparr>buffer = [0]\<rparr>\<rparr>\<rparr>;
       s2 = s0\<lparr>count := 2\<rparr>
   in capacity s2 \<le> real (count s2) \<and>
      SafeBloomFilter_add (Str ''c'') s2 = (False, s2) \<and>
      real (count s0) < capacity s0 \<and>
      SafeBloomFilter_add (Str ''a'') s0 =
        (True, s0\<lparr>filter' := BloomFilter_add (Str ''a'') (filter' s0), count := 1\<rparr>) \<and>
      SafeBloomFilter_new Math (Some (real 2)) (Some (1 / 2)) None = Inr s0 \<and>
      fst (SafeBloomFilter_adds [Str ''a'', Str ''b'', Str ''c''] s0) = [True, True, False]"
  (is "\<forall>Math. ?P Math")
proof
  fix Math
  define s0 where "s0 = \<lparr>capacity = 2, errorRate = 1 / 2, count = 0,
    filter' = \<lparr>size' = 3, slices = calculateSlices Math 3 2, bitfield = \<lparr>buffer = [0]\<rparr>\<rparr>\<rparr>"
  have new: "SafeBloomFilter_new Math (Some (real 2)) (Some (1 / 2)) None = Inr s0"
    by (simp add: SafeBloomFilter_new_2_half s0_def)
  have full: "capacity (s0\<lparr>count := 2\<rparr>) \<le> real (count (s0\<lparr>count := 2\<rparr>))"
    and free: "real (count s0) < capacity s0"
    by (simp_all add: s0_def)
  have upt: "[0..<3] = [0, 1, 2]"
    by (simp add: upt_rec)
  from capacity_enforcement [of "s0\<lparr>count := 2\<rparr>" "Str ''c''" Math 2 "Some (1 / 2)" None s0
      "[Str ''a'', Str ''b'', Str ''c'']"]
    capacity_enforcement [of s0 "Str ''a''" Math 2 "Some (1 / 2)" None s0 "[]"]
    new full free
  show "?P Math"
    unfolding Let_def s0_def [symmetric]
    by (simp add: upt s0_def)
qed

section \<open>The slice count\<close>

lemma SafeBloomFilter_adds_fields [simp]:
  "capacity (snd (SafeBloomFilter_adds keys s)) = capacity s"
  "errorRate (snd (SafeBloomFilter_adds keys s)) = errorRate s"
  by (induction keys arbitrary: s) (simp_all add: split_beta)

lemma SafeBloomFilter_adds_inv:
  "BloomFilter_inv (filter' s) \<Longrightarrow> BloomFilter_inv (filter' (snd (SafeBloomFilter_adds keys s)))"
  by (induction keys arbitrary: s) (simp_all add: split_beta SafeBloomFilter_add_inv)

lemma calulateHashes_ceiling:
  "\<lceil>sl\<rceil> = \<lceil>sl'\<rceil> \<Longrightarrow> calulateHashes key sz sl = calulateHashes key sz sl'"
  by (simp add: calulateHashes_eq)

lemma indices_bar:
  "js_rem (Num (js_add 3862027667 (js_mul 0 3419762479))) 3 = Num 2"
  "js_rem (Num (js_add 3862027667 (js_mul 1 3419762479))) 3 = Num 0"
  by code_simp code_simp

lemma calulateHashes_bar: "calulateHashes (Str ''bar'') 3 2 = [Num 2, Num 0]"
proof -
  have "[0..<nat \<lceil>2 :: real\<rceil>] = [0, 1]"
    by (simp add: upt_rec)
  then show ?thesis
    by (simp add: calulateHashes_eq fnv_bar indices_bar del: js_rem.simps)
qed

lemma bits_bar:
  "\<not> Bitfield_get (Num 2) \<lparr>buffer = [0]\<rparr>"
  "Bitfield_set (Num 0) True (Bitfield_set (Num 2) True \<lparr>buffer = [0]\<rparr>) = \<lparr>buffer = [5]\<rparr>"
  "Bitfield_get (Num 2) \<lparr>buffer = [5]\<rparr>"
  "Bitfield_get (Num 0) \<lparr>buffer = [5]\<rparr>"
  by code_simp+

text \<open>
  C10.  The slice count is a loop bound that is never rounded: for a number \<open>s > 0\<close>,
  \<open>calulateHashes\<close> returns \<open>\<lceil>s\<rceil>\<close> indices, one more than \<open>\<lfloor>s\<rfloor>\<close> when \<open>s\<close> is not
  an integer.  A \<open>SafeBloomFilter\<close> from the constructor has the size \<open>n\<close> of
  \<open>calculateSize\<close>, and after any \<open>add\<close> calls it derives for a key the
  \<open>\<lceil>calculateSlices n capacity\<rceil>\<close> indices \<open>hashes\<close> (none when that is not
  positive), where \<open>calculateSlices n capacity\<close> is the double that the source
  computes: \<open>has\<close> tests exactly the bits at these indices, and an \<open>add\<close> that
  returns true sets exactly these bits, so that each of them reads as set.
\<close>

theorem slice_count_is_ceiling:
  "(0 < s \<longrightarrow> int (length (calulateHashes key sz s)) = \<lceil>s\<rceil>) \<and>
   (0 < s \<longrightarrow> s \<notin> \<int> \<longrightarrow> int (length (calulateHashes key sz s)) = \<lfloor>s\<rfloor> + 1) \<and>
   (SafeBloomFilter_new Math capacity_arg errorRate_arg buf = Inr sb \<longrightarrow>
      (\<exists>n. calculateSize Math (capacity sb) (errorRate sb) = Some n \<and>
         (let st = snd (SafeBloomFilter_adds keys sb);
              hashes = calulateHashes key n (calculateSlices Math n (capacity sb))
          in length hashes = nat \<lceil>calculateSlices Math n (capacity sb)\<rceil> \<and>
             (SafeBloomFilter_has key st \<longleftrightarrow>
                (\<forall>h \<in> set hashes. Bitfield_get h (bitfield (filter' st)))) \<and>
             (\<forall>st1. SafeBloomFilter_add key st = (True, st1) \<longrightarrow>
                bitfield (filter' st1) =
                  foldl (\<lambda>bf h. Bitfield_set h True bf) (bitfield (filter' st)) hashes \<and>
                (\<forall>h \<in> set hashes. Bitfield_get h (bitfield (filter' st1)))))))"
proof (intro conjI impI)
  assume "0 < s"
  then have "0 \<le> \<lceil>s\<rceil>" by (simp add: le_ceiling_iff)
  then show len: "int (length (calulateHashes key sz s)) = \<lceil>s\<rceil>"
    by (simp add: length_calulateHashes)
  assume "s \<notin> \<int>"
  then have "of_int \<lfloor>s\<rfloor> \<noteq> s"
    by (metis Ints_of_int)
  then have "\<lceil>s\<rceil> = \<lfloor>s\<rfloor> + 1"
    by (simp add: ceiling_altdef)
  with len show "int (length (calulateHashes key sz s)) = \<lfloor>s\<rfloor> + 1"
    by simp
next
  assume new: "SafeBloomFilter_new Math capacity_arg errorRate_arg buf = Inr sb"
  define n where "n = size' (filter' sb)"
  define st where "st = snd (SafeBloomFilter_adds keys sb)"
  define hashes where "hashes = calulateHashes key n (calculateSlices Math n (capacity sb))"
  have size: "calculateSize Math (capacity sb) (errorRate sb) = Some n"
    unfolding n_def by (rule SafeBloomFilter_new_fields(4) [OF new])
  have "SafeBloomFilter_consistent Math st"
    unfolding st_def
    by (intro SafeBloomFilter_adds_consistent SafeBloomFilter_new_consistent [OF new])
  then have "calculateSize Math (capacity sb) (errorRate sb) = Some (size' (filter' st))"
    and sl: "slices (filter' st) = calculateSlices Math (size' (filter' st)) (capacity sb)"
    by (simp_all add: SafeBloomFilter_consistent_def st_def)
  with size have sz: "size' (filter' st) = n" by simp
  have h: "calulateHashes key (size' (filter' st)) (slices (filter' st)) = hashes"
    by (simp add: hashes_def sl sz)
  have len: "length hashes = nat \<lceil>calculateSlices Math n (capacity sb)\<rceil>"
    by (simp add: hashes_def length_calulateHashes)
  have has: "SafeBloomFilter_has key st \<longleftrightarrow>
      (\<forall>h \<in> set hashes. Bitfield_get h (bitfield (filter' st)))"
    by (simp add: SafeBloomFilter_has_def BloomFilter_has_def h has_loop_iff)
  have add: "bitfield (filter' st1) =
        foldl (\<lambda>bf h. Bitfield_set h True bf) (bitfield (filter' st)) hashes \<and>
      (\<forall>h \<in> set hashes. Bitfield_get h (bitfield (filter' st1)))"
    if t: "SafeBloomFilter_add key st = (True, st1)" for st1
  proof -
    note a = SafeBloomFilter_add_True [OF t]
    from a(2) have "0 \<le> capacity sb"
      by (simp add: st_def)
    with new have "BloomFilter_inv (filter' sb)"
      by (rule SafeBloomFilter_new_inv)
    then have inv: "BloomFilter_inv (filter' st)"
      unfolding st_def by (rule SafeBloomFilter_adds_inv)
    have f1: "filter' st1 = BloomFilter_add key (filter' st)"
      by (simp add: a(1))
    have "BloomFilter_has key (BloomFilter_add key (filter' st))"
      using inv by (rule BloomFilter_has_add)
    then have "\<forall>h \<in> set hashes. Bitfield_get h (bitfield (filter' st1))"
      by (simp add: BloomFilter_has_def has_loop_iff h f1)
    moreover have "bitfield (filter' st1) =
        foldl (\<lambda>bf h. Bitfield_set h True bf) (bitfield (filter' st)) hashes"
      by (simp add: f1 BloomFilter_add_def h)
    ultimately show ?thesis by simp
  qed
  from size len has add
  show "\<exists>n. calculateSize Math (capacity sb) (errorRate sb) = Some n \<and>
         (let st = snd (SafeBloomFilter_adds keys sb);
              hashes = calulateHashes key n (calculateSlices Math n (capacity sb))
          in length hashes = nat \<lceil>calculateSlices Math n (capacity sb)\<rceil> \<and>
             (SafeBloomFilter_has key st \<longleftrightarrow>
                (\<forall>h \<in> set hashes. Bitfield_get h (bitfield (filter' st)))) \<and>
             (\<forall>st1. SafeBloomFilter_add key st = (True, st1) \<longrightarrow>
                bitfield (filter' st1) =
                  foldl (\<lambda>bf h. Bitfield_set h True bf) (bitfield (filter' st)) hashes \<and>
                (\<forall>h \<in> set hashes. Bitfield_get h (bitfield (filter' st1)))))"
    unfolding Let_def st_def hashes_def
    by (intro exI [of _ n]) blast
qed

theorem slice_count_is_ceiling_witness:
  "\<forall>Math.
     (0 :: real) < 5 / 2 \<and> (5 / 2 :: real) \<notin> \<int> \<and>
     length (calulateHashes (Str ''foo'') 8 (5 / 2)) = 3 \<and>
     (let sb = \<lparr>capacity = 2, errorRate = 1 / 2, count = 0,
                filter' = \<lparr>size' = 3, slices = calculateSlices Math 3 2,
                  bitfield = \<lparr>buffer = [0]\<rparr>\<rparr>\<rparr>;
          hashes = calulateHashes (Str ''bar'') 3 (calculateSlices Math 3 2);
          sb1 = sb\<lparr>filter' := BloomFilter_add (Str ''bar'') (filter' sb), count := 1\<rparr>
      in SafeBloomFilter_new Math (Some 2) (Some (1 / 2)) None = Inr sb \<and>
         calculateSize Math 2 (1 / 2) = Some 3 \<and>
         \<lceil>calculateSlices Math 3 2\<rceil> = 2 \<and>
         hashes = [Num 2, Num 0] \<and>
         \<not> SafeBloomFilter_has (Str ''bar'') sb \<and>
         SafeBloomFilter_add (Str ''bar'') sb = (True, sb1) \<and>
         bitfield (filter' sb1) = \<lparr>buffer = [5]\<rparr> \<and>
         Bitfield_get (Num 2) (bitfield (filter' sb1)) \<and>
         Bitfield_get (Num 0) (bitfield (filter' sb1)))"
  (is "\<forall>Math. ?P Math")
proof
  fix Math
  define sb where "sb = \<lparr>capacity = 2, errorRate = 1 / 2, count = 0,
    filter' = \<lparr>size' = 3, slices = calculateSlices Math 3 2, bitfield = \<lparr>buffer = [0]\<rparr>\<rparr>\<rparr>"
  define sb1 where "sb1 = sb\<lparr>filter' := BloomFilter_add (Str ''bar'') (filter' sb), count := 1\<rparr>"
  have new: "SafeBloomFilter_new Math (Some 2) (Some (1 / 2)) None = Inr sb"
    by (simp add: SafeBloomFilter_new_2_half sb_def)
  have fl: "\<lfloor>5 / 2 :: real\<rfloor> = 2"
    by (simp add: floor_eq_iff)
  have nonint: "(5 / 2 :: real) \<notin> \<int>"
  proof
    assume "(5 / 2 :: real) \<in> \<int>"
    then obtain z :: int where "(5 / 2 :: real) = of_int z"
      by (rule Ints_cases)
    then have "real_of_int (2 * z) = real_of_int 5" by simp
    then have "2 * z = 5" by (simp only: of_int_eq_iff)
    then show False by presburger
  qed
  have pos: "(0 :: real) < 5 / 2" by simp
  have hashes: "calulateHashes (Str ''bar'') 3 (calculateSlices Math 3 2) = [Num 2, Num 0]"
    using calulateHashes_ceiling [of "calculateSlices Math 3 2" 2 "Str ''bar''" 3]
    by (simp add: calculateSlices_3_2 calulateHashes_bar)
  have add: "SafeBloomFilter_add (Str ''bar'') sb = (True, sb1)"
    by (simp add: SafeBloomFilter_add_def sb_def sb1_def)
  from slice_count_is_ceiling [of "5 / 2" "Str ''foo''" 8 Math "Some 2" "Some (1 / 2)"
      None sb "[]"] pos nonint fl
  have a: "length (calulateHashes (Str ''foo'') 8 (5 / 2)) = 3"
    by simp
  note inst = slice_count_is_ceiling [of "5 / 2" "Str ''bar''" 8 Math "Some 2" "Some (1 / 2)"
      None sb "[]"]
  from inst new have b: "calculateSize Math (capacity sb) (errorRate sb) = Some 3 \<longrightarrow>
      length (calulateHashes (Str ''bar'') 3 (calculateSlices Math 3 (capacity sb))) =
        nat \<lceil>calculateSlices Math 3 (capacity sb)\<rceil> \<and>
      (SafeBloomFilter_has (Str ''bar'') sb \<longleftrightarrow>
        (\<forall>h \<in> set (calulateHashes (Str ''bar'') 3 (calculateSlices Math 3 (capacity sb))).
           Bitfield_get h (bitfield (filter' sb)))) \<and>
      (bitfield (filter' sb1) =
         foldl (\<lambda>bf h. Bitfield_set h True bf) (bitfield (filter' sb))
           (calulateHashes (Str ''bar'') 3 (calculateSlices Math 3 (capacity sb))) \<and>
       (\<forall>h \<in> set (calulateHashes (Str ''bar'') 3 (calculateSlices Math 3 (capacity sb))).
          Bitfield_get h (bitfield (filter' sb1))))"
    using add by (auto simp: Let_def)
  have cap: "capacity sb = 2" "errorRate sb = 1 / 2" "bitfield (filter' sb) = \<lparr>buffer = [0]\<rparr>"
    by (simp_all add: sb_def)
  from b have c: "\<not> SafeBloomFilter_has (Str ''bar'') sb"
    "bitfield (filter' sb1) = \<lparr>buffer = [5]\<rparr>"
    "Bitfield_get (Num 2) (bitfield (filter' sb1))"
    "Bitfield_get (Num 0) (bitfield (filter' sb1))"
    unfolding cap hashes by (simp_all add: calculateSize_2_half bits_bar)
  from a pos nonint new hashes add c show "?P Math"
    unfolding Let_def sb_def [symmetric] sb1_def [symmetric]
    by (simp add: calculateSize_2_half calculateSlices_3_2)
qed

section \<open>The value returned by add\<close>

lemma default_errorRate:
  "\<exists>d e. double (1 - rnd 0.9) = Some d \<and> double (rnd 0.1 * d) = Some e \<and>
     1 / 2 ^ 1074 \<le> e \<and> e \<le> 1 - 1 / 2 ^ 53"
proof -
  have r9: "89 / 100 \<le> rnd (9 / 10)" "rnd (9 / 10) \<le> 91 / 100"
    using rnd_between [of "9 / 10" "9 / 10" "9 / 10"] by simp_all
  then have t: "9 / 100 \<le> 1 - rnd (9 / 10)" "1 - rnd (9 / 10) \<le> 11 / 100"
    by simp_all
  have d: "8 / 100 \<le> rnd (1 - rnd (9 / 10))" "rnd (1 - rnd (9 / 10)) \<le> 12 / 100"
    using rnd_between [OF _ t] by simp_all
  have r1: "9 / 100 \<le> rnd (1 / 10)" "rnd (1 / 10) \<le> 11 / 100"
    using rnd_between [of "1 / 10" "1 / 10" "1 / 10"] by simp_all
  have "9 / 100 * (8 / 100) \<le> rnd (1 / 10) * rnd (1 - rnd (9 / 10))"
    using r1(1) d(1) by (intro mult_mono) simp_all
  moreover have "rnd (1 / 10) * rnd (1 - rnd (9 / 10)) \<le> 11 / 100 * (12 / 100)"
    using r1 d by (intro mult_mono) simp_all
  ultimately have e: "7 / 1000 \<le> rnd (rnd (1 / 10) * rnd (1 - rnd (9 / 10)))"
    "rnd (rnd (1 / 10) * rnd (1 - rnd (9 / 10))) \<le> 14 / 1000"
    using rnd_between [of "9 / 100 * (8 / 100)" "rnd (1 / 10) * rnd (1 - rnd (9 / 10))"
        "11 / 100 * (12 / 100)"]
    by simp_all
  from d have "double (1 - rnd (9 / 10)) = Some (rnd (1 - rnd (9 / 10)))"
    by (simp add: double_def)
  moreover from e have "double (rnd (1 / 10) * rnd (1 - rnd (9 / 10))) =
      Some (rnd (rnd (1 / 10) * rnd (1 - rnd (9 / 10))))"
    by (simp add: double_def)
  moreover from e have "1 / 2 ^ 1074 \<le> rnd (rnd (1 / 10) * rnd (1 - rnd (9 / 10)))"
    "rnd (rnd (1 / 10) * rnd (1 - rnd (9 / 10))) \<le> 1 - 1 / 2 ^ 53"
    by simp_all
  ultimately show ?thesis by simp
qed

lemma SafeBloomFilter_new_succeeds:
  assumes "1 \<le> cap" and "cap \<le> 2 ^ 1000" and "1 / 2 ^ 1074 \<le> err"
    and "err \<le> 1 - 1 / 2 ^ 53"
  shows "\<exists>s. SafeBloomFilter_new Math (Some cap) (Some err) None = Inr s"
proof -
  from calculateSize_close [OF assms, of Math] obtain d where
    d: "calculateSize Math cap err = Some \<lceil>d\<rceil>"
      "cap * ln err / - (480453 / 1000000) * (1 - 1 / 2 ^ 50) \<le> d"
    by auto
  have "(0 :: real) < 1 / 2 ^ 1074" by simp
  with assms(3) have pos: "0 < err" by linarith
  from assms(4) have "err < 1"
    by (rule order_le_less_trans) simp
  with pos have "ln err < 0" by simp
  with assms(1) have "cap * ln err \<le> 0"
    by (simp add: mult_le_0_iff)
  then have "0 \<le> cap * ln err / - (480453 / 1000000)"
    by (simp add: divide_nonpos_neg)
  then have "0 \<le> cap * ln err / - (480453 / 1000000) * (1 - 1 / 2 ^ 50)"
    by (intro mult_nonneg_nonneg) simp_all
  with d(2) have "0 \<le> d" by linarith
  then have "0 \<le> \<lceil>d\<rceil>"
    by (simp add: le_ceiling_iff)
  then have "0 \<le> - ((- \<lceil>d\<rceil>) div 8)"
    by linarith
  with d(1) show ?thesis
    by (simp add: SafeBloomFilter_new_def BloomFilter_new_def Bitfield_new_def
        Buffer_alloc_def Let_def)
qed

lemma ScalingBloomFilter_add_accepted:
  assumes "filters s \<noteq> []"
    and "real (count (last (filters s))) < capacity (last (filters s))"
  shows "\<exists>s1. ScalingBloomFilter_add Math key s = Inr (Undefined, s1)"
  using assms by (simp add: ScalingBloomFilter_add_def SafeBloomFilter_add_def Let_def)

text \<open>
  C9.  On a fresh \<open>ScalingBloomFilter\<close> with the default parameters the tail accepts the
  key, and \<open>add\<close> returns \<open>undefined\<close>, not the filter.
\<close>

theorem scaling_add_returns_undefined:
  "(case ScalingBloomFilter_new Math None
           \<lparr>opt_ratio = None, opt_scaling = None, opt_initialCapacity = None\<rparr> of
      Inl e \<Rightarrow> False
    | Inr s \<Rightarrow>
        (case ScalingBloomFilter_add Math (Str ''foo'') s of
           Inl e \<Rightarrow> False
         | Inr (r, s1) \<Rightarrow> r = Undefined))"
proof -
  from default_errorRate obtain d e where
    de: "double (1 - rnd 0.9) = Some d" "double (rnd 0.1 * d) = Some e"
      "1 / 2 ^ 1074 \<le> e" "e \<le> 1 - 1 / 2 ^ 53"
    by blast
  from SafeBloomFilter_new_succeeds [of 1000 e Math] de(3,4) obtain f where
    f: "SafeBloomFilter_new Math (Some 1000) (Some e) None = Inr f"
    by auto
  define s where "s = \<lparr>errorRate' = rnd 0.1, ratio = rnd 0.9, scaling = 2,
    initialCapacity = 1000, filters = [f]\<rparr>"
  have new: "ScalingBloomFilter_new Math None
      \<lparr>opt_ratio = None, opt_scaling = None, opt_initialCapacity = None\<rparr> = Inr s"
    using f de(1,2) by (simp add: ScalingBloomFilter_new_def or_default_def s_def)
  from SafeBloomFilter_new_fields(1,3) [OF f]
  have "real (count (last (filters s))) < capacity (last (filters s))"
    by (simp add: s_def)
  with ScalingBloomFilter_add_accepted [of s Math "Str ''foo''"] obtain s1 where
    "ScalingBloomFilter_add Math (Str ''foo'') s = Inr (Undefined, s1)"
    by (auto simp: s_def)
  with new show ?thesis by simp
qed

section \<open>The index formula\<close>

text \<open>
  C3, as stated, fails for a large slice count.  For the key "bar", size 16 and 2633867
  slices, the sum \<open>h1 + 2633866 * h2\<close> is the odd number 9007199983541481, above
  \<open>2 ^ 53\<close>; the number addition rounds it to 9007199983541480, and the index at
  position 2633866 is 8 where the formula gives 9.
\<close>

theorem calulateHashes_formula_counterexample:
  "calulateHashes (Str ''bar'') 16 (real 2633867) ! 2633866 = Num 8 \<and>
   (fnv (Buf (utf8 ''S'')) (Str ''bar'') + 2633866 * fnv (Buf (utf8 ''W'')) (Str ''bar''))
     mod 16 = 9"
proof -
  have "calulateHashes (Str ''bar'') 16 (real 2633867) ! 2633866 =
          js_rem (Num (js_add (fnv (Buf (utf8 ''S'')) (Str ''bar''))
                         (js_mul (int 2633866) (fnv (Buf (utf8 ''W'')) (Str ''bar''))))) 16"
    by (rule nth_calulateHashes) simp
  then show ?thesis
    by (simp add: fnv_bar index_bar del: js_rem.simps)
qed

text \<open>
  C3, amended.  For a size of at least 1 and an integer slice count \<open>n\<close>,
  \<open>calulateHashes\<close> returns \<open>n\<close> indices, each in \<open>[0, size)\<close>.  With \<open>h1\<close> and \<open>h2\<close>
  the unsigned 32-bit FNV hashes of the byte \<open>S\<close>, respectively \<open>W\<close>, followed by the
  key's bytes, the index at position \<open>i\<close> is \<open>(h1 + i * h2) mod size\<close> whenever
  \<open>h1 + i * h2\<close> is below \<open>2 ^ 53\<close>, which holds for every \<open>i\<close> below \<open>2 ^ 21\<close>.  The
  indices depend on the key only through its bytes.
\<close>

theorem calulateHashes_indices:
  "1 \<le> sz \<longrightarrow> i < n \<longrightarrow>
     (let h1 = ToUint32 (value' (update (Buf (utf8 ''S'' @ bytes_of key)) FNV_new));
          h2 = ToUint32 (value' (update (Buf (utf8 ''W'' @ bytes_of key)) FNV_new));
          hashes = calulateHashes key sz (real n)
      in length hashes = n \<and>
         0 \<le> h1 \<and> h1 < 2 ^ 32 \<and> 0 \<le> h2 \<and> h2 < 2 ^ 32 \<and>
         (h1 + int i * h2 < 2 ^ 53 \<longrightarrow> hashes ! i = Num ((h1 + int i * h2) mod sz)) \<and>
         (i < 2 ^ 21 \<longrightarrow> hashes ! i = Num ((h1 + int i * h2) mod sz)) \<and>
         (\<exists>v. hashes ! i = Num v \<and> 0 \<le> v \<and> v < sz) \<and>
         (bytes_of key' = bytes_of key \<longrightarrow> calulateHashes key' sz (real n) = hashes))"
proof (intro impI)
  assume sz: "1 \<le> sz" and i: "i < n"
  define h1 where "h1 = fnv (Buf (utf8 ''S'')) key"
  define h2 where "h2 = fnv (Buf (utf8 ''W'')) key"
  have r1: "0 \<le> h1" "h1 < 2 ^ 32" and r2: "0 \<le> h2" "h2 < 2 ^ 32"
    using fnv_range by (simp_all add: h1_def h2_def)
  have nth: "calulateHashes key sz (real n) ! i =
      js_rem (Num (js_add h1 (js_mul (int i) h2))) sz"
    unfolding h1_def h2_def using i by (rule nth_calulateHashes)
  have len: "length (calulateHashes key sz (real n)) = n"
    by (simp add: length_calulateHashes)
  have exact: "calulateHashes key sz (real n) ! i = Num ((h1 + int i * h2) mod sz)"
    if "h1 + int i * h2 < 2 ^ 53"
    unfolding nth using r1(1) r2(1) that sz by (rule index_exact)
  have small: "calulateHashes key sz (real n) ! i = Num ((h1 + int i * h2) mod sz)"
    if "i < 2 ^ 21"
    using small_index_below_2_53 [OF r1 r2 that] by (rule exact)
  have "calulateHashes key sz (real n) ! i \<in> set (calulateHashes key sz (real n))"
    using i len by simp
  from calulateHashes_range [OF this sz]
  have range: "\<exists>v. calulateHashes key sz (real n) ! i = Num v \<and> 0 \<le> v \<and> v < sz" .
  have same: "calulateHashes key' sz (real n) = calulateHashes key sz (real n)"
    if "bytes_of key' = bytes_of key"
    using that by (simp add: calulateHashes_def fnv_def update_def)
  show "let h1 = ToUint32 (value' (update (Buf (utf8 ''S'' @ bytes_of key)) FNV_new));
          h2 = ToUint32 (value' (update (Buf (utf8 ''W'' @ bytes_of key)) FNV_new));
          hashes = calulateHashes key sz (real n)
      in length hashes = n \<and>
         0 \<le> h1 \<and> h1 < 2 ^ 32 \<and> 0 \<le> h2 \<and> h2 < 2 ^ 32 \<and>
         (h1 + int i * h2 < 2 ^ 53 \<longrightarrow> hashes ! i = Num ((h1 + int i * h2) mod sz)) \<and>
         (i < 2 ^ 21 \<longrightarrow> hashes ! i = Num ((h1 + int i * h2) mod sz)) \<and>
         (\<exists>v. hashes ! i = Num v \<and> 0 \<le> v \<and> v < sz) \<and>
         (bytes_of key' = bytes_of key \<longrightarrow> calulateHashes key' sz (real n) = hashes)"
    unfolding Let_def fnv_concat [symmetric] h1_def [symmetric] h2_def [symmetric]
    using len r1 r2 exact small range same by blast
qed

lemma fnv_foo: "fnv (Buf (utf8 ''S'')) (Str ''foo'') = 3052508034"
  "fnv (Buf (utf8 ''W'')) (Str ''foo'') = 211366566"
  by code_simp code_simp

theorem calulateHashes_indices_witness:
  "(1 :: int) \<le> 160 \<and> (1 :: nat) < 2 \<and>
   length (calulateHashes (Str ''foo'') 160 (real 2)) = 2 \<and>
   ToUint32 (value' (update (Buf (utf8 ''S'' @ bytes_of (Str ''foo''))) FNV_new)) = 3052508034 \<and>
   ToUint32 (value' (update (Buf (utf8 ''W'' @ bytes_of (Str ''foo''))) FNV_new)) = 211366566 \<and>
   (3052508034 + int 1 * 211366566 :: int) < 2 ^ 53 \<and>
   calulateHashes (Str ''foo'') 160 (real 2) ! 1 = Num 40 \<and>
   calulateHashes (Buf (utf8 ''foo'')) 160 (real 2) = calulateHashes (Str ''foo'') 160 (real 2)"
proof -
  have h: "ToUint32 (value' (update (Buf (utf8 ''S'' @ bytes_of (Str ''foo''))) FNV_new)) =
      3052508034"
    "ToUint32 (value' (update (Buf (utf8 ''W'' @ bytes_of (Str ''foo''))) FNV_new)) = 211366566"
    unfolding fnv_concat [symmetric] by (rule fnv_foo)+
  have b: "bytes_of (Buf (utf8 ''foo'')) = bytes_of (Str ''foo'')" by simp
  from calulateHashes_indices [of 160 1 2 "Str ''foo''" "Buf (utf8 ''foo'')"] b
  show ?thesis
    unfolding Let_def h by simp
qed

section \<open>Round trips through snapshots\<close>

text \<open>
  C5, as stated, fails for an attenuated filter whose \<open>bitfieldSize\<close> is not a multiple
  of 8.  With \<open>bitfieldSize\<close> 12 a level has 2 bytes, and \<open>from\<close> rebuilds it with size 16:
  after "foo" is added to level 0, the filter has "foo" and its reconstruction has not.
\<close>

theorem from_toHexArray_counterexample:
  "(case AttenuatedBloomFilter_new \<lparr>opt_bitfieldSize = Some 12, opt_filterDepth = None\<rparr> of
      Inl e \<Rightarrow> False
    | Inr fresh \<Rightarrow>
        (case level_adds [(0, Str ''foo'')] fresh of
           Inl e \<Rightarrow> False
         | Inr A \<Rightarrow>
             (case AttenuatedBloomFilter_from (toHexArray A) of
                Inl e \<Rightarrow> False
              | Inr B \<Rightarrow>
                  BloomFilter_has (Str ''foo'') (levels A ! 0) \<and>
                  \<not> BloomFilter_has (Str ''foo'') (levels B ! 0) \<and>
                  size' (levels A ! 0) = 12 \<and> size' (levels B ! 0) = 16 \<and>
                  buffer (bitfield (levels B ! 0)) = buffer (bitfield (levels A ! 0)))))"
  by code_simp

text \<open>
  C5, amended.  Reconstruction from a snapshot returns the filter itself, with the same
  parameters and the same buffers, so that \<open>has\<close> agrees on every key: for a
  \<open>BloomFilter\<close>, a \<open>SafeBloomFilter\<close> and a \<open>ScalingBloomFilter\<close> built by their
  constructor and any \<open>add\<close> calls, through \<open>destringify\<close>; and for an attenuated filter
  built by its constructor and any \<open>add\<close> calls on its levels, through \<open>from\<close> on
  \<open>toHexArray\<close>, when its \<open>bitfieldSize\<close> is a multiple of 8.
\<close>

theorem snapshot_round_trip:
  "(BloomFilter_new size_arg slices_arg buf = Inr f0 \<longrightarrow>
      BloomFilter_destringify (BloomFilter_adds keys f0) = Inr (BloomFilter_adds keys f0)) \<and>
   (SafeBloomFilter_new Math capacity_arg errorRate_arg buf1 = Inr s0 \<longrightarrow>
      SafeBloomFilter_destringify Math (snd (SafeBloomFilter_adds keys s0)) =
        Inr (snd (SafeBloomFilter_adds keys s0))) \<and>
   (ScalingBloomFilter_new Math errorRate_arg1 options = Inr sc0 \<longrightarrow>
      ScalingBloomFilter_adds Math keys sc0 = Inr sc \<longrightarrow>
      ScalingBloomFilter_destringify Math sc = Inr sc) \<and>
   (AttenuatedBloomFilter_new aoptions = Inr a0 \<longrightarrow> level_adds iks a0 = Inr a \<longrightarrow>
      8 dvd bitfieldSize a \<longrightarrow>
      AttenuatedBloomFilter_from (toHexArray a) = Inr a)"
proof (intro conjI impI)
  assume "BloomFilter_new size_arg slices_arg buf = Inr f0"
  then have "0 \<le> - ((- size' f0) div 8)"
    by (rule BloomFilter_new_bytes)
  then have "0 \<le> - ((- size' (BloomFilter_adds keys f0)) div 8)"
    by (simp only: BloomFilter_adds_size)
  then show "BloomFilter_destringify (BloomFilter_adds keys f0) = Inr (BloomFilter_adds keys f0)"
    by (rule BloomFilter_destringify_id)
next
  assume "SafeBloomFilter_new Math capacity_arg errorRate_arg buf1 = Inr s0"
  then have "SafeBloomFilter_consistent Math s0"
    by (rule SafeBloomFilter_new_consistent)
  then have "SafeBloomFilter_consistent Math (snd (SafeBloomFilter_adds keys s0))"
    by (rule SafeBloomFilter_adds_consistent)
  then show "SafeBloomFilter_destringify Math (snd (SafeBloomFilter_adds keys s0)) =
      Inr (snd (SafeBloomFilter_adds keys s0))"
    by (rule SafeBloomFilter_destringify_id)
next
  assume "ScalingBloomFilter_new Math errorRate_arg1 options = Inr sc0"
  then have "ScalingBloomFilter_consistent Math sc0"
    by (rule ScalingBloomFilter_new_consistent)
  moreover assume "ScalingBloomFilter_adds Math keys sc0 = Inr sc"
  ultimately have "ScalingBloomFilter_consistent Math sc"
    by (rule ScalingBloomFilter_adds_consistent)
  then show "ScalingBloomFilter_destringify Math sc = Inr sc"
    by (rule ScalingBloomFilter_destringify_id)
next
  assume "AttenuatedBloomFilter_new aoptions = Inr a0"
  then have "AttenuatedBloomFilter_inv a0"
    by (rule AttenuatedBloomFilter_new_inv)
  moreover assume "level_adds iks a0 = Inr a"
  ultimately have "AttenuatedBloomFilter_inv a"
    by (rule level_adds_inv)
  moreover assume "8 dvd bitfieldSize a"
  ultimately show "AttenuatedBloomFilter_from (toHexArray a) = Inr a"
    by (rule AttenuatedBloomFilter_from_toHexArray)
qed

theorem snapshot_round_trip_witness:
  "\<forall>Math.
   let f0 = \<lparr>size' = 8, slices = 2, bitfield = \<lparr>buffer = [0]\<rparr>\<rparr>;
       s0 = \<lparr>capacity = 2, errorRate = 1 / 2, count = 0,
             filter' = \<lparr>size' = 3, slices = calculateSlices Math 3 2,
               bitfield = \<lparr>buffer = [0]\<rparr>\<rparr>\<rparr>;
       s1 = s0\<lparr>filter' := BloomFilter_add (Str ''foo'') (filter' s0), count := 1\<rparr>;
       sc0 = \<lparr>errorRate' = 1, ratio = 1 / 2, scaling = 2, initialCapacity = 2, filters = [s0]\<rparr>;
       sc = \<lparr>errorRate' = 1, ratio = 1 / 2, scaling = 2, initialCapacity = 2, filters = [s1]\<rparr>;
       a0 = \<lparr>bitfieldSize = 8, filterDepth = 1, levels = [f0]\<rparr>;
       a = \<lparr>bitfieldSize = 8, filterDepth = 1, levels = [BloomFilter_add (Str ''foo'') f0]\<rparr>
   in BloomFilter_new (Some 8) (Some 2) None = Inr f0 \<and>
      BloomFilter_destringify (BloomFilter_add (Str ''foo'') f0) =
        Inr (BloomFilter_add (Str ''foo'') f0) \<and>
      SafeBloomFilter_new Math (Some 2) (Some (1 / 2)) None = Inr s0 \<and>
      SafeBloomFilter_destringify Math s1 = Inr s1 \<and>
      ScalingBloomFilter_new Math (Some 1)
        \<lparr>opt_ratio = Some (1 / 2), opt_scaling = None, opt_initialCapacity = Some 2\<rparr> = Inr sc0 \<and>
      ScalingBloomFilter_adds Math [Str ''foo''] sc0 = Inr sc \<and>
      ScalingBloomFilter_destringify Math sc = Inr sc \<and>
      AttenuatedBloomFilter_new \<lparr>opt_bitfieldSize = Some 8, opt_filterDepth = Some 1\<rparr> = Inr a0 \<and>
      level_adds [(0, Str ''foo'')] a0 = Inr a \<and>
      8 dvd bitfieldSize a \<and>
      AttenuatedBloomFilter_from (toHexArray a) = Inr a"
  (is "\<forall>Math. ?P Math")
proof
  fix Math
  define f0 where "f0 = \<lparr>size' = 8, slices = 2, bitfield = \<lparr>buffer = [0]\<rparr>\<rparr>"
  define s0 where "s0 = \<lparr>capacity = 2, errorRate = 1 / 2, count = 0,
    filter' = \<lparr>size' = 3, slices = calculateSlices Math 3 2, bitfield = \<lparr>buffer = [0]\<rparr>\<rparr>\<rparr>"
  define s1 where "s1 = s0\<lparr>filter' := BloomFilter_add (Str ''foo'') (filter' s0), count := 1\<rparr>"
  define sc0 where "sc0 = \<lparr>errorRate' = 1, ratio = 1 / 2, scaling = 2, initialCapacity = 2,
    filters = [s0]\<rparr>"
  define sc where "sc = \<lparr>errorRate' = 1, ratio = 1 / 2, scaling = 2, initialCapacity = 2,
    filters = [s1]\<rparr>"
  define a0 where "a0 = \<lparr>bitfieldSize = 8, filterDepth = 1, levels = [f0]\<rparr>"
  define a where "a = \<lparr>bitfieldSize = 8, filterDepth = 1,
    levels = [BloomFilter_add (Str ''foo'') f0]\<rparr>"
  have f: "BloomFilter_new (Some 8) (Some 2) None = Inr f0"
    by (simp add: BloomFilter_new_def Bitfield_new_def Buffer_alloc_def f0_def)
  have fa: "BloomFilter_adds [Str ''foo''] f0 = BloomFilter_add (Str ''foo'') f0"
    by (simp add: BloomFilter_adds_def)
  have s: "SafeBloomFilter_new Math (Some 2) (Some (1 / 2)) None = Inr s0"
    by (simp add: SafeBloomFilter_new_2_half s0_def)
  have sa: "snd (SafeBloomFilter_adds [Str ''foo''] s0) = s1"
    by (simp add: SafeBloomFilter_add_def s0_def s1_def)
  have c: "ScalingBloomFilter_new Math (Some 1)
      \<lparr>opt_ratio = Some (1 / 2), opt_scaling = None, opt_initialCapacity = Some 2\<rparr> = Inr sc0"
    using s by (simp add: ScalingBloomFilter_new_def or_default_def sc0_def double_half)
  have ca: "ScalingBloomFilter_adds Math [Str ''foo''] sc0 = Inr sc"
    by (simp add: ScalingBloomFilter_add_def SafeBloomFilter_add_def sc0_def sc_def s0_def
        s1_def)
  have n: "AttenuatedBloomFilter_new \<lparr>opt_bitfieldSize = Some 8, opt_filterDepth = Some 1\<rparr> =
      Inr a0"
    using f by (simp add: AttenuatedBloomFilter_new_def or_default_def a0_def)
  have la: "level_adds [(0, Str ''foo'')] a0 = Inr a"
    by (simp add: level_add_def a0_def a_def)
  have d: "8 dvd bitfieldSize a"
    by (simp add: a_def)
  from snapshot_round_trip [of "Some 8" "Some 2" None f0 "[Str ''foo'']" Math "Some 2"
      "Some (1 / 2)" None s0 "Some 1"
      "\<lparr>opt_ratio = Some (1 / 2), opt_scaling = None, opt_initialCapacity = Some 2\<rparr>" sc0 sc
      "\<lparr>opt_bitfieldSize = Some 8, opt_filterDepth = Some 1\<rparr>" a0 "[(0, Str ''foo'')]" a]
    f s c ca n la d
  have "BloomFilter_destringify (BloomFilter_add (Str ''foo'') f0) =
      Inr (BloomFilter_add (Str ''foo'') f0)"
    and "SafeBloomFilter_destringify Math s1 = Inr s1"
    and "ScalingBloomFilter_destringify Math sc = Inr sc"
    and "AttenuatedBloomFilter_from (toHexArray a) = Inr a"
    unfolding fa sa by blast+
  with f s c ca n la d show "?P Math"
    unfolding Let_def f0_def [symmetric] s0_def [symmetric] s1_def [symmetric]
      sc0_def [symmetric] sc_def [symmetric] a0_def [symmetric] a_def [symmetric]
    by blast
qed

end
